theory Spec2Isabelle
  imports Complex_Main "HOL-Library.AList" "HOL-Library.Sublist"
begin

section \<open>Error taxonomy (package utils, errors)\<close>

text \<open>
  \<^verbatim>\<open>ErrorType\<close> is the Go enumeration, in the order of its \<^verbatim>\<open>iota\<close> constants.
\<close>

datatype ErrorType =
  UnknownError | NetworkError | TimeoutError | HTTPError
  | ParseError | ConfigError | ValidationError | FileError

text \<open>
  The values stored in an error's \<^verbatim>\<open>Context\<close> map (\<^verbatim>\<open>map[string]interface{}\<close>): the
  code stores integers (the status code, depths, attempt counts) and strings.
\<close>

datatype ctx_value = IntValue int | StrValue string

text \<open>
  An error that is not an \<^verbatim>\<open>*AppError\<close> comes from the Go standard library. The code
  only ever asks five things of it: its text (\<^verbatim>\<open>Error()\<close>), whether \<^verbatim>\<open>errors.As\<close> finds a
  \<^verbatim>\<open>net.Error\<close> in its chain, whether that one reports \<^verbatim>\<open>Timeout()\<close>, whether
  \<^verbatim>\<open>errors.As\<close> finds a \<^verbatim>\<open>*net.DNSError\<close>, and whether \<^verbatim>\<open>errors.Is\<close> finds
  \<^verbatim>\<open>context.DeadlineExceeded\<close>. The record holds these five answers.
\<close>

record StdError =
  err_text :: string
  as_net_error :: bool
  net_timeout :: bool
  as_dns_error :: bool
  is_deadline_exceeded :: bool

text \<open>
  The Go interface \<^verbatim>\<open>error\<close>: either an \<^verbatim>\<open>*AppError\<close> with the six fields of the struct,
  or a standard-library error. A nil \<^verbatim>\<open>error\<close> is \<open>None\<close> of \<open>error option\<close>. The
  \<^verbatim>\<open>Context\<close> map is an association list with at most one entry per key; \<^verbatim>\<open>Timestamp\<close>
  is the reading of \<^verbatim>\<open>time.Now()\<close>, passed in by the caller of the model.
\<close>

datatype error =
  AppError (Type: ErrorType) (Message: string) (Cause: "error option")
           (Context: "(string \<times> ctx_value) list") (Timestamp: int) (Retryable: bool)
  | StdErr StdError

fun IsRetryable :: "error \<Rightarrow> bool" where
  "IsRetryable (AppError ty msg cause ctx ts rt) = rt"
| "IsRetryable (StdErr e) = False"

fun WithContext :: "error \<Rightarrow> string \<Rightarrow> ctx_value \<Rightarrow> error" where
  "WithContext (AppError ty msg cause ctx ts rt) key v =
     AppError ty msg cause (AList.update key v ctx) ts rt"
| "WithContext (StdErr e) key v = StdErr e"

fun isRetryableError :: "ErrorType \<Rightarrow> error option \<Rightarrow> bool" where
  "isRetryableError NetworkError cause = True"
| "isRetryableError TimeoutError cause = True"
| "isRetryableError HTTPError cause = True"
| "isRetryableError errType cause = False"

definition NewError :: "int \<Rightarrow> ErrorType \<Rightarrow> string \<Rightarrow> error option \<Rightarrow> error" where
  "NewError now errType message cause =
     AppError errType message cause [] now (isRetryableError errType cause)"

definition NewNetworkError :: "int \<Rightarrow> string \<Rightarrow> error option \<Rightarrow> error" where
  "NewNetworkError now message cause = NewError now NetworkError message cause"

definition NewTimeoutError :: "int \<Rightarrow> string \<Rightarrow> error option \<Rightarrow> error" where
  "NewTimeoutError now message cause = NewError now TimeoutError message cause"

definition NewHTTPError :: "int \<Rightarrow> string \<Rightarrow> int \<Rightarrow> error option \<Rightarrow> error" where
  "NewHTTPError now message statusCode cause =
     WithContext (NewError now HTTPError message cause) ''status_code'' (IntValue statusCode)"

definition NewParseError :: "int \<Rightarrow> string \<Rightarrow> error option \<Rightarrow> error" where
  "NewParseError now message cause = NewError now ParseError message cause"

definition NewConfigError :: "int \<Rightarrow> string \<Rightarrow> error option \<Rightarrow> error" where
  "NewConfigError now message cause = NewError now ConfigError message cause"

definition NewValidationError :: "int \<Rightarrow> string \<Rightarrow> error option \<Rightarrow> error" where
  "NewValidationError now message cause = NewError now ValidationError message cause"

definition NewFileError :: "int \<Rightarrow> string \<Rightarrow> error option \<Rightarrow> error" where
  "NewFileError now message cause = NewError now FileError message cause"

fun IsNetworkError :: "error \<Rightarrow> bool" where
  "IsNetworkError (AppError ty msg cause ctx ts rt) = (ty = NetworkError)"
| "IsNetworkError (StdErr e) =
     (if as_net_error e then True else if as_dns_error e then True else False)"

fun IsTimeoutError :: "error \<Rightarrow> bool" where
  "IsTimeoutError (AppError ty msg cause ctx ts rt) = (ty = TimeoutError)"
| "IsTimeoutError (StdErr e) =
     (if as_net_error e \<and> net_timeout e then True
      else if is_deadline_exceeded e then True else False)"

fun IsRetryableError :: "error \<Rightarrow> bool" where
  "IsRetryableError (AppError ty msg cause ctx ts rt) = rt"
| "IsRetryableError (StdErr e) =
     (if IsNetworkError (StdErr e) \<or> IsTimeoutError (StdErr e) then True else False)"

text \<open>\<^verbatim>\<open>strings.Contains\<close>: the second string occurs somewhere in the first.\<close>

fun strings_Contains :: "string \<Rightarrow> string \<Rightarrow> bool" where
  "strings_Contains [] substr = (substr = [])"
| "strings_Contains (c # cs) substr = (prefix substr (c # cs) \<or> strings_Contains cs substr)"

text \<open>
  \<^verbatim>\<open>WrapError(err, message)\<close>. A nil error stays nil. An \<^verbatim>\<open>*AppError\<close> is copied with
  the message prefixed and a fresh timestamp; any other error is classified and becomes
  the cause of a new \<^verbatim>\<open>AppError\<close>.
\<close>

fun WrapError :: "int \<Rightarrow> error option \<Rightarrow> string \<Rightarrow> error option" where
  "WrapError now None message = None"
| "WrapError now (Some (AppError ty msg cause ctx ts rt)) message =
     Some (AppError ty (message @ '': '' @ msg) cause ctx now rt)"
| "WrapError now (Some (StdErr e)) message =
     (let errType =
        (if IsNetworkError (StdErr e) then NetworkError
         else if IsTimeoutError (StdErr e) then TimeoutError
         else if strings_Contains (err_text e) ''parse'' then ParseError
         else UnknownError)
      in Some (NewError now errType message (Some (StdErr e))))"

text \<open>
  Wrapping an error again and again: the messages of the list are applied from left to
  right, each at its own time, so the last message of the list ends up outermost.
\<close>

fun wrap_many :: "error option \<Rightarrow> (int \<times> string) list \<Rightarrow> error option" where
  "wrap_many err [] = err"
| "wrap_many err ((now, message) # rest) = wrap_many (WrapError now err message) rest"

fun ErrorType_String :: "ErrorType \<Rightarrow> string" where
  "ErrorType_String NetworkError = ''NETWORK_ERROR''"
| "ErrorType_String TimeoutError = ''TIMEOUT_ERROR''"
| "ErrorType_String HTTPError = ''HTTP_ERROR''"
| "ErrorType_String ParseError = ''PARSE_ERROR''"
| "ErrorType_String ConfigError = ''CONFIG_ERROR''"
| "ErrorType_String ValidationError = ''VALIDATION_ERROR''"
| "ErrorType_String FileError = ''FILE_ERROR''"
| "ErrorType_String UnknownError = ''UNKNOWN_ERROR''"

text \<open>The method \<^verbatim>\<open>Error()\<close>; of a standard-library error it is the text.\<close>

fun Error_text :: "error \<Rightarrow> string" where
  "Error_text (AppError ty msg cause ctx ts rt) =
     (case cause of
        Some c \<Rightarrow> ErrorType_String ty @ '': '' @ msg @ '' (caused by: '' @ Error_text c @ '')''
      | None \<Rightarrow> ErrorType_String ty @ '': '' @ msg)"
| "Error_text (StdErr e) = err_text e"

section \<open>Retry executor (package utils, retry)\<close>

text \<open>
  Durations (\<^verbatim>\<open>time.Duration\<close>) are whole nanoseconds. \<open>BackoffFactor\<close> holds the number
  the \<^verbatim>\<open>float64\<close> field stands for; the model does no arithmetic on it. The function
  \<^verbatim>\<open>calculateDelay\<close> works in \<^verbatim>\<open>float64\<close> (\<^verbatim>\<open>math.Pow\<close>, products, a random draw, the
  conversion back to \<^verbatim>\<open>int64\<close>) and is not modelled: the value it returns is taken
  from the surroundings of \<^verbatim>\<open>Retry\<close>, like the outcome of an attempt.
\<close>

record RetryConfig =
  MaxAttempts :: int
  InitialDelay :: int
  MaxDelay :: int
  BackoffFactor :: real
  Jitter :: bool
  RetryableErrors :: "ErrorType list"
  Timeout :: int

definition Millisecond :: int where "Millisecond = 1000000"
definition Second :: int where "Second = 1000000000"
definition Minute :: int where "Minute = 60000000000"

definition DefaultRetryConfig :: RetryConfig where
  "DefaultRetryConfig =
     \<lparr>MaxAttempts = 3, InitialDelay = 100 * Millisecond, MaxDelay = 30 * Second,
      BackoffFactor = 2, Jitter = True,
      RetryableErrors = [NetworkError, TimeoutError, HTTPError], Timeout = 5 * Minute\<rparr>"

definition NetworkRetryConfig :: RetryConfig where
  "NetworkRetryConfig =
     \<lparr>MaxAttempts = 5, InitialDelay = 200 * Millisecond, MaxDelay = 10 * Second,
      BackoffFactor = 3 / 2, Jitter = True,
      RetryableErrors = [NetworkError, TimeoutError, HTTPError], Timeout = 2 * Minute\<rparr>"

definition QuickRetryConfig :: RetryConfig where
  "QuickRetryConfig =
     \<lparr>MaxAttempts = 2, InitialDelay = 50 * Millisecond, MaxDelay = 1 * Second,
      BackoffFactor = 2, Jitter = False,
      RetryableErrors = [NetworkError, TimeoutError], Timeout = 10 * Second\<rparr>"

text \<open>
  \<^verbatim>\<open>RetryResult\<close> without its \<^verbatim>\<open>TotalTime\<close> field, which is a reading of the wall clock.
\<close>

record RetryResult =
  Success :: bool
  Attempts :: int
  LastError :: "error option"
  AllErrors :: "error list"

text \<open>
  What \<^verbatim>\<open>Retry\<close> observes of its surroundings, indexed by the attempt number:
  the error returned by the \<open>i\<close>-th call of the retried function (\<open>None\<close> is nil);
  whether the context is done at the check before attempt \<open>i\<close>; whether the
  \<^verbatim>\<open>select\<close> of the delay after attempt \<open>i\<close> takes the \<^verbatim>\<open>ctx.Done()\<close> branch;
  the value of \<^verbatim>\<open>ctx.Err()\<close>; the value \<^verbatim>\<open>calculateDelay\<close> returns after attempt \<open>i\<close>;
  the reading of the clock.
\<close>

record retry_env =
  attempt_fn :: "int \<Rightarrow> error option"
  ctx_done_before :: "int \<Rightarrow> bool"
  ctx_done_in_delay :: "int \<Rightarrow> bool"
  ctx_Err :: error
  calculated_delay :: "int \<Rightarrow> int"
  time_Now :: "int \<Rightarrow> int"

fun isErrorRetryable :: "error option \<Rightarrow> ErrorType list \<Rightarrow> bool" where
  "isErrorRetryable None retryableErrors = False"
| "isErrorRetryable (Some (AppError ty msg cause ctx ts rt)) [] = False"
| "isErrorRetryable (Some (AppError ty msg cause ctx ts rt)) (errType # rest) =
     (if ty = errType then IsRetryable (AppError ty msg cause ctx ts rt)
      else isErrorRetryable (Some (AppError ty msg cause ctx ts rt)) rest)"
| "isErrorRetryable (Some (StdErr e)) retryableErrors = IsRetryableError (StdErr e)"

text \<open>
  The loop of \<^verbatim>\<open>Retry\<close>, from the attempt number \<open>attempt\<close> on. Beside the result it
  returns the list of the delays it computed, in order: every computed delay is handed
  to the \<^verbatim>\<open>select\<close> that sleeps.
\<close>

function Retry_loop ::
    "retry_env \<Rightarrow> RetryConfig \<Rightarrow> int \<Rightarrow> RetryResult \<Rightarrow> int list \<Rightarrow> RetryResult \<times> int list" where
  "Retry_loop env config attempt result delays =
     (if attempt \<le> MaxAttempts config then
        (let result = result\<lparr>Attempts := attempt\<rparr> in
         if ctx_done_before env attempt then
           (let e = NewTimeoutError (time_Now env attempt)
                      ''retry operation cancelled or timed out'' (Some (ctx_Err env))
            in (result\<lparr>LastError := Some e, AllErrors := AllErrors result @ [e]\<rparr>, delays))
         else
           (case attempt_fn env attempt of
              None \<Rightarrow> (result\<lparr>Success := True\<rparr>, delays)
            | Some err \<Rightarrow>
                (let result = result\<lparr>LastError := Some err,
                                      AllErrors := AllErrors result @ [err]\<rparr> in
                 if \<not> isErrorRetryable (Some err) (RetryableErrors config)
                 then (result, delays)
                 else if attempt = MaxAttempts config then (result, delays)
                 else
                   (let delay = calculated_delay env attempt in
                    if ctx_done_in_delay env attempt then
                      (let e = NewTimeoutError (time_Now env attempt)
                                 ''retry operation cancelled or timed out during delay''
                                 (Some (ctx_Err env))
                       in (result\<lparr>LastError := Some e, AllErrors := AllErrors result @ [e]\<rparr>,
                           delays @ [delay]))
                    else Retry_loop env config (attempt + 1) result (delays @ [delay])))))
      else (result, delays))"
  by pat_completeness auto
termination
  by (relation "measure (\<lambda>(env, config, attempt, result, delays).
                  nat (MaxAttempts config + 1 - attempt))") auto

declare Retry_loop.simps [simp del]

definition Retry_run :: "retry_env \<Rightarrow> RetryConfig option \<Rightarrow> RetryResult \<times> int list" where
  "Retry_run env config =
     (let config = (case config of None \<Rightarrow> DefaultRetryConfig | Some c \<Rightarrow> c)
      in Retry_loop env config 1
           \<lparr>Success = False, Attempts = 0, LastError = None, AllErrors = []\<rparr> [])"

definition Retry :: "retry_env \<Rightarrow> RetryConfig option \<Rightarrow> RetryResult" where
  "Retry env config = fst (Retry_run env config)"

definition Retry_delays :: "retry_env \<Rightarrow> RetryConfig option \<Rightarrow> int list" where
  "Retry_delays env config = snd (Retry_run env config)"

text \<open>
  \<^verbatim>\<open>WithRetry(config, logger)(fn)(ctx)\<close>: the wrapped function returns the
  \<^verbatim>\<open>LastError\<close> field of the result.
\<close>

definition WithRetry :: "RetryConfig option \<Rightarrow> retry_env \<Rightarrow> error option" where
  "WithRetry config env = LastError (Retry env config)"

text \<open>
  Attempt \<open>i\<close> is followed by another one: the context is not done before it, the
  retried function fails with an error that \<^verbatim>\<open>isErrorRetryable\<close> accepts, and the
  context is not done during the delay.
\<close>

definition attempt_retried :: "retry_env \<Rightarrow> RetryConfig \<Rightarrow> int \<Rightarrow> bool" where
  "attempt_retried env config i =
     (\<not> ctx_done_before env i
      \<and> isErrorRetryable (attempt_fn env i) (RetryableErrors config)
      \<and> \<not> ctx_done_in_delay env i)"

section \<open>Traversal engine (package crawler)\<close>

record Config =
  Domain :: string
  OutputFile :: string
  MaxDepth :: int
  Threads :: int
  Timeout :: int
  IgnoreRobots :: bool
  Verbose :: bool

text \<open>
  The fields of \<^verbatim>\<open>url.URL\<close> that the crawler or the examples below look at.
\<close>

record URL =
  Scheme :: string
  Opaque :: string
  Host :: string
  Path :: string
  Fragment :: string

text \<open>
  The functions of the Go libraries that the crawler calls on strings are parameters
  of the model:
  \<^item> \<open>url_Parse\<close> is \<^verbatim>\<open>url.Parse\<close>, \<open>None\<close> when it returns an error;
  \<^item> \<open>ResolveReference_String base ref\<close> is \<^verbatim>\<open>base.ResolveReference(ref).String()\<close>;
  \<^item> \<open>anchor_hrefs\<close> is \<^verbatim>\<open>html.Parse\<close> followed by the walk of \<^verbatim>\<open>extractLinks\<close>: the
    value of the first \<^verbatim>\<open>href\<close> attribute of every \<^verbatim>\<open>a\<close> element that has one, in
    document order, and \<open>None\<close> when \<^verbatim>\<open>html.Parse\<close> returns an error;
  \<^item> \<open>script_srcs\<close> is the list of the first groups of all matches of the two regular
    expressions of \<^verbatim>\<open>extractJSFromHTML\<close>, pattern by pattern;
  \<^item> \<open>strings_TrimSpace\<close> is \<^verbatim>\<open>strings.TrimSpace\<close>.
\<close>

record go_lib =
  url_Parse :: "string \<Rightarrow> URL option"
  ResolveReference_String :: "URL \<Rightarrow> URL \<Rightarrow> string"
  anchor_hrefs :: "string \<Rightarrow> string list option"
  script_srcs :: "string \<Rightarrow> string list"
  strings_TrimSpace :: "string \<Rightarrow> string"

text \<open>
  The life of one call of \<^verbatim>\<open>crawlURL\<close>. A call made in a goroutine starts \<open>Spawned\<close>
  (before the send on the semaphore of its parent); \<open>Entered\<close> is the start of
  \<^verbatim>\<open>crawlURL\<close> itself; \<open>Fetching\<close> lasts from the visited test-and-set to the return of
  \<^verbatim>\<open>utils.Retry\<close>; \<open>Waiting\<close> is \<^verbatim>\<open>wg.Wait()\<close>; \<open>Returned\<close> carries the value
  \<^verbatim>\<open>crawlURL\<close> returned; \<open>Released\<close> is after the receive from the semaphore and
  \<open>Finished\<close> after \<^verbatim>\<open>wg.Done()\<close>.
\<close>

datatype phase =
  Spawned | Entered | Fetching | Waiting
  | Returned "error option" | Released "error option" | Finished "error option"

text \<open>
  \<open>task_sem\<close> is the call of \<^verbatim>\<open>crawlURL\<close> (its index in \<open>tasks\<close>) that created the
  semaphore this goroutine sends on: \<^verbatim>\<open>crawlURL\<close> makes a new channel of capacity
  \<^verbatim>\<open>Threads\<close> every time it reaches the loop over the links. It is \<open>None\<close> for the call
  made by \<^verbatim>\<open>CrawlDomain\<close> or \<^verbatim>\<open>CrawlFromStdin\<close>, which is not in a goroutine.
\<close>

record task =
  task_url :: string
  task_depth :: int
  task_sem :: "nat option"
  task_phase :: phase

text \<open>
  The \<^verbatim>\<open>Crawler\<close> and its goroutines. \<open>visited\<close> and \<open>jsFiles\<close> are the keys of the two
  maps (only \<^verbatim>\<open>true\<close> is ever stored); \<open>c_output\<close> is \<open>None\<close> while \<^verbatim>\<open>c.output\<close> is nil
  and otherwise the lines written to it; \<open>console\<close> and \<open>stderr\<close> are the lines the
  crawler prints with \<^verbatim>\<open>fmt.Printf\<close> and with \<^verbatim>\<open>fmt.Fprintf\<close> to \<^verbatim>\<open>os.Stderr\<close>. \<open>fetch_log\<close> records, in order, the URL and
  depth of every call that went past the visited test-and-set and so started a fetch;
  \<open>error_log\<close> records the calls of \<^verbatim>\<open>utils.LogError\<close> with a non-nil error.
\<close>

record crawler =
  visited :: "string set"
  jsFiles :: "string set"
  c_output :: "string list option"
  console :: "string list"
  stderr :: "string list"
  tasks :: "task list"
  fetch_log :: "(string \<times> int) list"
  error_log :: "(error \<times> (string \<times> ctx_value) list) list"
  panicked :: bool

definition New :: crawler where
  "New = \<lparr>visited = {}, jsFiles = {}, c_output = None, console = [], stderr = [],
          tasks = [], fetch_log = [], error_log = [], panicked = False\<rparr>"

definition LogError :: "error option \<Rightarrow> (string \<times> ctx_value) list \<Rightarrow> crawler \<Rightarrow> crawler" where
  "LogError err ctx s =
     (case err of None \<Rightarrow> s | Some e \<Rightarrow> s\<lparr>error_log := error_log s @ [(e, ctx)]\<rparr>)"

subsection \<open>Links and script references\<close>

definition resolveURL :: "go_lib \<Rightarrow> string \<Rightarrow> string \<Rightarrow> string" where
  "resolveURL lib href baseURL =
     (case url_Parse lib baseURL of
        None \<Rightarrow> href
      | Some base \<Rightarrow>
          (case url_Parse lib href of
             None \<Rightarrow> href
           | Some ref \<Rightarrow> ResolveReference_String lib base ref))"

definition isValidLink :: "go_lib \<Rightarrow> string \<Rightarrow> string \<Rightarrow> bool" where
  "isValidLink lib link baseURL =
     (case url_Parse lib link of
        None \<Rightarrow> False
      | Some parsedLink \<Rightarrow>
          (case url_Parse lib baseURL of
             None \<Rightarrow> False
           | Some parsedBase \<Rightarrow> Host parsedLink = Host parsedBase))"

fun collect_links :: "go_lib \<Rightarrow> string \<Rightarrow> string list \<Rightarrow> string list" where
  "collect_links lib baseURL [] = []"
| "collect_links lib baseURL (href # rest) =
     (let link = resolveURL lib href baseURL in
      if isValidLink lib link baseURL then link # collect_links lib baseURL rest
      else collect_links lib baseURL rest)"

definition extractLinks :: "go_lib \<Rightarrow> string \<Rightarrow> string \<Rightarrow> string list" where
  "extractLinks lib htmlContent baseURL =
     (case anchor_hrefs lib htmlContent of
        None \<Rightarrow> []
      | Some hrefs \<Rightarrow> collect_links lib baseURL hrefs)"

definition addJSFile :: "Config \<Rightarrow> string \<Rightarrow> crawler \<Rightarrow> crawler" where
  "addJSFile cfg jsURL s =
     (if jsURL \<notin> jsFiles s then
        (let s = s\<lparr>jsFiles := insert jsURL (jsFiles s)\<rparr>;
             s = (case c_output s of None \<Rightarrow> s | Some ls \<Rightarrow> s\<lparr>c_output := Some (ls @ [jsURL])\<rparr>)
         in if Verbose cfg then s\<lparr>console := console s @ [''Found JS file: '' @ jsURL]\<rparr>
            else s)
      else s)"

fun add_matches :: "go_lib \<Rightarrow> Config \<Rightarrow> string \<Rightarrow> string list \<Rightarrow> crawler \<Rightarrow> crawler" where
  "add_matches lib cfg baseURL [] s = s"
| "add_matches lib cfg baseURL (m # rest) s =
     add_matches lib cfg baseURL rest (addJSFile cfg (resolveURL lib m baseURL) s)"

definition extractJSFromHTML :: "go_lib \<Rightarrow> Config \<Rightarrow> string \<Rightarrow> string \<Rightarrow> crawler \<Rightarrow> crawler" where
  "extractJSFromHTML lib cfg htmlContent baseURL s =
     add_matches lib cfg baseURL (script_srcs lib htmlContent) s"

subsection \<open>The steps of \<^verbatim>\<open>crawlURL\<close>\<close>

text \<open>The verb \<^verbatim>\<open>%d\<close> of \<^verbatim>\<open>fmt.Sprintf\<close>.\<close>

function nat_to_dec :: "nat \<Rightarrow> string" where
  "nat_to_dec n = (if n < 10 then [''0123456789'' ! n]
                   else nat_to_dec (n div 10) @ [''0123456789'' ! (n mod 10)])"
  by pat_completeness auto
termination
  by (relation "measure id") auto

declare nat_to_dec.simps [simp del]

definition fmt_int :: "int \<Rightarrow> string" where
  "fmt_int i = (if i < 0 then ''-'' @ nat_to_dec (nat (- i)) else nat_to_dec (nat i))"

definition set_phase :: "nat \<Rightarrow> phase \<Rightarrow> crawler \<Rightarrow> crawler" where
  "set_phase i ph s = s\<lparr>tasks := (tasks s)[i := (tasks s ! i)\<lparr>task_phase := ph\<rparr>]\<rparr>"

fun holds_slot :: "phase \<Rightarrow> bool" where
  "holds_slot Entered = True"
| "holds_slot Fetching = True"
| "holds_slot Waiting = True"
| "holds_slot (Returned r) = True"
| "holds_slot ph = False"

fun is_finished :: "phase \<Rightarrow> bool" where
  "is_finished (Finished r) = True"
| "is_finished ph = False"

text \<open>The number of values in the channel that the call \<open>p\<close> of \<^verbatim>\<open>crawlURL\<close> made.\<close>

definition slots_in_use :: "crawler \<Rightarrow> nat \<Rightarrow> nat" where
  "slots_in_use s p =
     length (filter (\<lambda>t. task_sem t = Some p \<and> holds_slot (task_phase t)) (tasks s))"

text \<open>The number of calls that are inside \<^verbatim>\<open>utils.Retry\<close>: the fetches in flight.\<close>

definition in_flight :: "crawler \<Rightarrow> nat" where
  "in_flight s = length (filter (\<lambda>t. task_phase t = Fetching) (tasks s))"

text \<open>
  The start of \<^verbatim>\<open>crawlURL\<close>: the depth check, then the test-and-set of \<^verbatim>\<open>visited\<close>
  under \<^verbatim>\<open>visitedMux\<close>. The result says whether the call goes on to fetch.
\<close>

definition crawlURL_entry :: "Config \<Rightarrow> string \<Rightarrow> int \<Rightarrow> crawler \<Rightarrow> crawler \<times> bool" where
  "crawlURL_entry cfg targetURL depth s =
     (if depth > MaxDepth cfg then (s, False)
      else if targetURL \<in> visited s then (s, False)
      else (s\<lparr>visited := insert targetURL (visited s),
              fetch_log := fetch_log s @ [(targetURL, depth)]\<rparr>, True))"

definition crawl_failure_message :: "string \<Rightarrow> int \<Rightarrow> string" where
  "crawl_failure_message targetURL attempts =
     ''failed to crawl '' @ targetURL @ '' after '' @ fmt_int attempts @ '' attempts''"

text \<open>
  The rest of \<^verbatim>\<open>crawlURL\<close> once \<^verbatim>\<open>utils.Retry\<close> has returned, up to \<^verbatim>\<open>wg.Wait()\<close>. \<open>env\<close>
  is what \<^verbatim>\<open>Retry\<close> met, \<open>body\<close> the content read by the successful attempt, \<open>now\<close>
  the reading of the clock in \<^verbatim>\<open>WrapError\<close>. \<^verbatim>\<open>make\<close> panics on a negative capacity.
  The operation that the timeout manager opens for the call shows here only through
  its context, which \<open>env\<close> reports as done or not.
\<close>

definition crawlURL_fetched ::
    "go_lib \<Rightarrow> Config \<Rightarrow> RetryConfig \<Rightarrow> nat \<Rightarrow> retry_env \<Rightarrow> string \<Rightarrow> int \<Rightarrow> crawler \<Rightarrow> crawler" where
  "crawlURL_fetched lib cfg retryConfig i env body now s =
     (let targetURL = task_url (tasks s ! i);
          depth = task_depth (tasks s ! i);
          result = Retry env (Some retryConfig)
      in if \<not> Success result then
           (let err = WrapError now (LastError result)
                        (crawl_failure_message targetURL (Attempts result))
            in set_phase i (Returned err)
                 (LogError err [(''url'', StrValue targetURL), (''depth'', IntValue depth),
                                (''attempts'', IntValue (Attempts result))] s))
         else
           (let s = extractJSFromHTML lib cfg body targetURL s;
                links = extractLinks lib body targetURL
            in if Threads cfg < 0 then s\<lparr>panicked := True\<rparr>
               else set_phase i Waiting
                      (s\<lparr>tasks := tasks s @
                           map (\<lambda>link. \<lparr>task_url = link, task_depth = depth + 1,
                                        task_sem = Some i, task_phase = Spawned\<rparr>) links\<rparr>)))"

text \<open>
  What the scheduler and the network can do next. \<open>Acquire\<close> is the send on the
  semaphore, \<open>Enter\<close> the start of \<^verbatim>\<open>crawlURL\<close>, \<open>Fetched\<close> the return of \<^verbatim>\<open>utils.Retry\<close>
  with what follows it, \<open>Join\<close> the return of \<^verbatim>\<open>wg.Wait()\<close>, \<open>Release\<close> the logging of
  the goroutine and the receive from the semaphore, \<open>Finish\<close> is \<^verbatim>\<open>wg.Done()\<close>.
\<close>

datatype action =
  Acquire nat | Enter nat | Fetched nat retry_env string int
  | Join nat | Release nat | Finish nat

definition acquire :: "Config \<Rightarrow> nat \<Rightarrow> crawler \<Rightarrow> crawler" where
  "acquire cfg i s =
     (if i < length (tasks s) \<and> task_phase (tasks s ! i) = Spawned then
        (case task_sem (tasks s ! i) of
           None \<Rightarrow> s
         | Some p \<Rightarrow> if int (slots_in_use s p) < Threads cfg then set_phase i Entered s else s)
      else s)"

definition enter :: "Config \<Rightarrow> nat \<Rightarrow> crawler \<Rightarrow> crawler" where
  "enter cfg i s =
     (if i < length (tasks s) \<and> task_phase (tasks s ! i) = Entered then
        (case crawlURL_entry cfg (task_url (tasks s ! i)) (task_depth (tasks s ! i)) s of
           (s', go) \<Rightarrow> set_phase i (if go then Fetching else Returned None) s')
      else s)"

definition fetched ::
    "go_lib \<Rightarrow> Config \<Rightarrow> RetryConfig \<Rightarrow> nat \<Rightarrow> retry_env \<Rightarrow> string \<Rightarrow> int \<Rightarrow> crawler \<Rightarrow> crawler" where
  "fetched lib cfg retryConfig i env body now s =
     (if i < length (tasks s) \<and> task_phase (tasks s ! i) = Fetching
      then crawlURL_fetched lib cfg retryConfig i env body now s else s)"

definition join :: "nat \<Rightarrow> crawler \<Rightarrow> crawler" where
  "join i s =
     (if i < length (tasks s) \<and> task_phase (tasks s ! i) = Waiting
         \<and> list_all (\<lambda>t. task_sem t = Some i \<longrightarrow> is_finished (task_phase t)) (tasks s)
      then set_phase i (Returned None) s else s)"

definition release :: "nat \<Rightarrow> crawler \<Rightarrow> crawler" where
  "release i s =
     (if i < length (tasks s) \<and> task_sem (tasks s ! i) \<noteq> None then
        (case task_phase (tasks s ! i) of
           Returned r \<Rightarrow>
             set_phase i (Released r)
               (LogError r [(''url'', StrValue (task_url (tasks s ! i))),
                            (''depth'', IntValue (task_depth (tasks s ! i)))] s)
         | _ \<Rightarrow> s)
      else s)"

definition finish :: "nat \<Rightarrow> crawler \<Rightarrow> crawler" where
  "finish i s =
     (if i < length (tasks s) then
        (case task_phase (tasks s ! i) of
           Released r \<Rightarrow> set_phase i (Finished r) s
         | _ \<Rightarrow> s)
      else s)"

text \<open>
  One step. An action that is not possible in the state (a send on a full semaphore, a
  \<^verbatim>\<open>wg.Wait()\<close> with children still running, a call in another phase) leaves the state
  as it is, and nothing moves after a panic.
\<close>

fun step :: "go_lib \<Rightarrow> Config \<Rightarrow> RetryConfig \<Rightarrow> action \<Rightarrow> crawler \<Rightarrow> crawler" where
  "step lib cfg rc (Acquire i) s = (if panicked s then s else acquire cfg i s)"
| "step lib cfg rc (Enter i) s = (if panicked s then s else enter cfg i s)"
| "step lib cfg rc (Fetched i env body now) s =
     (if panicked s then s else fetched lib cfg rc i env body now s)"
| "step lib cfg rc (Join i) s = (if panicked s then s else join i s)"
| "step lib cfg rc (Release i) s = (if panicked s then s else release i s)"
| "step lib cfg rc (Finish i) s = (if panicked s then s else finish i s)"

fun run :: "go_lib \<Rightarrow> Config \<Rightarrow> RetryConfig \<Rightarrow> action list \<Rightarrow> crawler \<Rightarrow> crawler" where
  "run lib cfg rc [] s = s"
| "run lib cfg rc (a # as) s = run lib cfg rc as (step lib cfg rc a s)"

subsection \<open>The two entry points\<close>

text \<open>
  \<open>create_err\<close> is the error of \<^verbatim>\<open>os.Create\<close>, if any. \<^verbatim>\<open>fmt.Errorf\<close> with \<^verbatim>\<open>%w\<close> keeps the
  wrapped error in the chain, so only the text changes. Closing the output when the
  entry point returns is not modelled.
\<close>

definition setupOutput :: "Config \<Rightarrow> StdError option \<Rightarrow> crawler \<Rightarrow> crawler \<times> error option" where
  "setupOutput cfg create_err s =
     (if OutputFile cfg \<noteq> [] then
        (case create_err of
           Some e \<Rightarrow> (s, Some (StdErr e))
         | None \<Rightarrow> (s\<lparr>c_output := Some []\<rparr>, None))
      else (s\<lparr>c_output := Some []\<rparr>, None))"

fun setup_failure :: "error \<Rightarrow> error" where
  "setup_failure (StdErr e) =
     StdErr (e\<lparr>err_text := ''failed to setup output: '' @ err_text e\<rparr>)"
| "setup_failure e = StdErr \<lparr>err_text = ''failed to setup output: '' @ Error_text e,
      as_net_error = False, net_timeout = False, as_dns_error = False,
      is_deadline_exceeded = False\<rparr>"

definition start_crawl :: "string \<Rightarrow> crawler \<Rightarrow> crawler" where
  "start_crawl domain s =
     s\<lparr>tasks := tasks s @ [\<lparr>task_url = domain, task_depth = 0, task_sem = None,
                             task_phase = Entered\<rparr>]\<rparr>"

text \<open>
  What a caller of an entry point sees after the given actions: the call has returned
  a value, it is still running, or the program has panicked.
\<close>

datatype outcome = Return "error option" | Running | Panic

definition call_outcome :: "crawler \<Rightarrow> nat \<Rightarrow> outcome" where
  "call_outcome s call =
     (if panicked s then Panic
      else case task_phase (tasks s ! call) of Returned r \<Rightarrow> Return r | _ \<Rightarrow> Running)"

definition CrawlDomain ::
    "go_lib \<Rightarrow> Config \<Rightarrow> RetryConfig \<Rightarrow> StdError option \<Rightarrow> string \<Rightarrow> action list
       \<Rightarrow> crawler \<Rightarrow> outcome \<times> crawler" where
  "CrawlDomain lib cfg rc create_err domain sched c =
     (let c = (if Verbose cfg
               then c\<lparr>console := console c @ [''Starting crawl of domain: '' @ domain]\<rparr>
               else c)
      in case setupOutput cfg create_err c of
           (c, Some err) \<Rightarrow> (Return (Some (setup_failure err)), c)
         | (c, None) \<Rightarrow>
             (let s = run lib cfg rc sched (start_crawl domain c)
              in (call_outcome s (length (tasks c)), s)))"

text \<open>
  The loop of \<^verbatim>\<open>CrawlFromStdin\<close> over the scanned lines, each with the actions of its
  session; \<open>scan_err\<close> is the value of \<^verbatim>\<open>scanner.Err()\<close> after the last line.
\<close>

fun stdin_loop ::
    "go_lib \<Rightarrow> Config \<Rightarrow> RetryConfig \<Rightarrow> (string \<times> action list) list \<Rightarrow> error option
       \<Rightarrow> crawler \<Rightarrow> outcome \<times> crawler" where
  "stdin_loop lib cfg rc [] scan_err c = (Return scan_err, c)"
| "stdin_loop lib cfg rc ((line, sched) # rest) scan_err c =
     (let domain = strings_TrimSpace lib line in
      if domain \<noteq> [] then
        (let c = (if Verbose cfg
                  then c\<lparr>console := console c @ [''Crawling domain: '' @ domain]\<rparr> else c);
             s = run lib cfg rc sched (start_crawl domain c)
         in case call_outcome s (length (tasks c)) of
              Return None \<Rightarrow> stdin_loop lib cfg rc rest scan_err s
            | Return (Some err) \<Rightarrow>
                stdin_loop lib cfg rc rest scan_err
                  (s\<lparr>stderr := stderr s
                        @ [''Error crawling '' @ domain @ '': '' @ Error_text err]\<rparr>)
            | Running \<Rightarrow> (Running, s)
            | Panic \<Rightarrow> (Panic, s))
      else stdin_loop lib cfg rc rest scan_err c)"

definition CrawlFromStdin ::
    "go_lib \<Rightarrow> Config \<Rightarrow> RetryConfig \<Rightarrow> StdError option \<Rightarrow> (string \<times> action list) list
       \<Rightarrow> error option \<Rightarrow> crawler \<Rightarrow> outcome \<times> crawler" where
  "CrawlFromStdin lib cfg rc create_err lines scan_err c =
     (case setupOutput cfg create_err c of
        (c, Some err) \<Rightarrow> (Return (Some (setup_failure err)), c)
      | (c, None) \<Rightarrow> stdin_loop lib cfg rc lines scan_err c)"

subsection \<open>Invariants of a session\<close>


text \<open>
  No URL starts two fetches, a URL is in \<open>visited\<close> from the moment its fetch starts,
  and no fetch starts beyond the maximum depth.
\<close>

definition fetch_inv :: "Config \<Rightarrow> crawler \<Rightarrow> bool" where
  "fetch_inv cfg s \<longleftrightarrow>
     distinct (map fst (fetch_log s)) \<and> fst ` set (fetch_log s) \<subseteq> visited s
     \<and> (\<forall>p \<in> set (fetch_log s). snd p \<le> MaxDepth cfg)"

text \<open>
  Every call is for the first URL of the session or for a URL that \<^verbatim>\<open>isValidLink\<close>
  accepts against it, and every fetch belongs to a call.
\<close>

definition host_inv :: "go_lib \<Rightarrow> string \<Rightarrow> crawler \<Rightarrow> bool" where
  "host_inv lib domain s \<longleftrightarrow>
     (\<forall>u \<in> set (map task_url (tasks s)). u = domain \<or> isValidLink lib u domain)
     \<and> fst ` set (fetch_log s) \<subseteq> set (map task_url (tasks s))"



section \<open>A small site and some runs, for the examples\<close>

text \<open>
  The answers of \<^verbatim>\<open>url.Parse\<close> on the strings that occur in the examples. A URL such
  as \<^verbatim>\<open>mailto:test@x.test\<close> has a scheme and an opaque part; its host and its path are
  empty.
\<close>

definition ex_url :: "string \<Rightarrow> string \<Rightarrow> string \<Rightarrow> string \<Rightarrow> URL" where
  "ex_url scheme host path fragment =
     \<lparr>Scheme = scheme, Opaque = [], Host = host, Path = path, Fragment = fragment\<rparr>"

definition ex_opaque_url :: "string \<Rightarrow> string \<Rightarrow> URL" where
  "ex_opaque_url scheme opaque =
     \<lparr>Scheme = scheme, Opaque = opaque, Host = [], Path = [], Fragment = []\<rparr>"

definition ex_url_Parse :: "string \<Rightarrow> URL option" where
  "ex_url_Parse = map_of
     [(''https://x.test/'', ex_url ''https'' ''x.test'' ''/'' []),
      (''https://x.test/a'', ex_url ''https'' ''x.test'' ''/a'' []),
      (''https://x.test/b'', ex_url ''https'' ''x.test'' ''/b'' []),
      (''https://x.test/a1'', ex_url ''https'' ''x.test'' ''/a1'' []),
      (''https://x.test/a2'', ex_url ''https'' ''x.test'' ''/a2'' []),
      (''https://x.test/c'', ex_url ''https'' ''x.test'' ''/c'' []),
      (''https://x.test/#top'', ex_url ''https'' ''x.test'' ''/'' ''top''),
      (''http://x.test/p2'', ex_url ''http'' ''x.test'' ''/p2'' []),
      (''https://other.test/p'', ex_url ''https'' ''other.test'' ''/p'' []),
      (''mailto:test@x.test'', ex_opaque_url ''mailto'' ''test@x.test''),
      (''javascript:void(0)'', ex_opaque_url ''javascript'' ''void(0)''),
      (''/a'', ex_url [] [] ''/a'' []),
      (''/b'', ex_url [] [] ''/b'' []),
      (''/c'', ex_url [] [] ''/c'' []),
      (''/a1'', ex_url [] [] ''/a1'' []),
      (''/a2'', ex_url [] [] ''/a2'' []),
      (''/a.js'', ex_url [] [] ''/a.js'' []),
      (''#top'', ex_url [] [] [] ''top'')]"

text \<open>
  \<^verbatim>\<open>base.ResolveReference(ref).String()\<close> for the references of the examples: a reference
  with a scheme stands for itself, a reference that is only a fragment keeps the base
  and takes the fragment, and a reference that is an absolute path replaces the path of
  the base. \<^verbatim>\<open>strings.TrimSpace\<close> is given for lines whose only white space is the space
  character.
\<close>

definition ex_URL_String :: "URL \<Rightarrow> string" where
  "ex_URL_String u =
     (if Opaque u \<noteq> [] then Scheme u @ '':'' @ Opaque u
      else Scheme u @ ''://'' @ Host u @ Path u
             @ (if Fragment u = [] then [] else ''#'' @ Fragment u))"

definition ex_ResolveReference_String :: "URL \<Rightarrow> URL \<Rightarrow> string" where
  "ex_ResolveReference_String base ref =
     (if Scheme ref \<noteq> [] then ex_URL_String ref
      else if Path ref = [] then ex_URL_String (base\<lparr>Fragment := Fragment ref\<rparr>)
      else ex_URL_String (base\<lparr>Path := Path ref, Fragment := Fragment ref\<rparr>))"

definition ex_anchor_hrefs :: "string \<Rightarrow> string list option" where
  "ex_anchor_hrefs body =
     (if body = ''<a href=/a>a</a><a href=/b>b</a>'' then Some [''/a'', ''/b'']
      else if body = ''<a href=/a1>a1</a><a href=/a2>a2</a>'' then Some [''/a1'', ''/a2'']
      else if body = ''<a href=/a>a</a><a href=/c>c</a>'' then Some [''/a'', ''/c'']
      else if body = ''<a href=/c>c</a>'' then Some [''/c'']
      else if body = ''<script src=/a.js></script><a href=/a>a</a><a href=https://other.test/p>o</a>''
        then Some [''/a'', ''https://other.test/p'']
      else if body = ''<a href=http://x.test/p2>p</a><a href=#top>t</a><a href=mailto:test@x.test>m</a>''
        then Some [''http://x.test/p2'', ''#top'', ''mailto:test@x.test'']
      else Some [])"

definition ex_script_srcs :: "string \<Rightarrow> string list" where
  "ex_script_srcs body =
     (if body = ''<script src=/a.js></script><a href=/a>a</a><a href=https://other.test/p>o</a>''
      then [''/a.js''] else [])"

definition ex_lib :: go_lib where
  "ex_lib = \<lparr>url_Parse = ex_url_Parse, ResolveReference_String = ex_ResolveReference_String,
      anchor_hrefs = ex_anchor_hrefs, script_srcs = ex_script_srcs,
      strings_TrimSpace = (\<lambda>s. rev (dropWhile (\<lambda>c. c = CHR '' '') (rev (dropWhile (\<lambda>c. c = CHR '' '') s))))\<rparr>"

definition ex_config :: "int \<Rightarrow> int \<Rightarrow> Config" where
  "ex_config maxDepth threads =
     \<lparr>Domain = ''https://x.test/'', OutputFile = [], MaxDepth = maxDepth, Threads = threads,
      Timeout = 30, IgnoreRobots = False, Verbose = False\<rparr>"

text \<open>
  Errors of the standard library, and what \<^verbatim>\<open>Retry\<close> meets in the examples: the context
  is never done, and the delay after attempt \<open>i\<close> is taken to be \<open>i\<close> times 200 ms.
\<close>

definition ex_std_refused :: error where
  "ex_std_refused = StdErr \<lparr>err_text = ''connection refused'', as_net_error = True,
      net_timeout = False, as_dns_error = False, is_deadline_exceeded = False\<rparr>"

definition ex_ctx_canceled :: error where
  "ex_ctx_canceled = StdErr \<lparr>err_text = ''context canceled'', as_net_error = False,
      net_timeout = False, as_dns_error = False, is_deadline_exceeded = False\<rparr>"

definition ex_env :: "(int \<Rightarrow> error option) \<Rightarrow> retry_env" where
  "ex_env f = \<lparr>attempt_fn = f, ctx_done_before = (\<lambda>i. False), ctx_done_in_delay = (\<lambda>i. False),
      ctx_Err = ex_ctx_canceled, calculated_delay = (\<lambda>i. i * 200 * Millisecond),
      time_Now = (\<lambda>i. i)\<rparr>"

definition ex_fail_then_invalid :: "int \<Rightarrow> error option" where
  "ex_fail_then_invalid i =
     (if i = 1 then Some (NewNetworkError 1 ''failed to fetch'' (Some ex_std_refused))
      else Some (NewValidationError 2 ''invalid seed'' None))"

definition ex_invalid :: "int \<Rightarrow> error option" where
  "ex_invalid i = Some (NewValidationError 1 ''invalid seed'' None)"

definition ex_fail_then_ok :: "int \<Rightarrow> error option" where
  "ex_fail_then_ok i =
     (if i = 1 then Some (NewNetworkError 1 ''failed to fetch'' (Some ex_std_refused))
      else None)"

definition ex_ok :: "int \<Rightarrow> error option" where
  "ex_ok i = None"

definition ex_http_500 :: "int \<Rightarrow> error option" where
  "ex_http_500 i = Some (NewHTTPError i ''HTTP error for https://x.test/'' 500 None)"

text \<open>
  With two threads and depth two: the root page links to \<^verbatim>\<open>/a\<close> and \<^verbatim>\<open>/b\<close>, the page
  \<^verbatim>\<open>/a\<close> links to \<^verbatim>\<open>/a1\<close> and \<^verbatim>\<open>/a2\<close>. The fetch of \<^verbatim>\<open>/b\<close> is slow; meanwhile \<^verbatim>\<open>/a\<close> is
  fetched and its two links start their fetches.
\<close>

definition ex_fanout_schedule :: "action list" where
  "ex_fanout_schedule =
     [Enter 0, Fetched 0 (ex_env ex_ok) ''<a href=/a>a</a><a href=/b>b</a>'' 10,
      Acquire 1, Acquire 2, Enter 1, Enter 2,
      Fetched 1 (ex_env ex_ok) ''<a href=/a1>a1</a><a href=/a2>a2</a>'' 20,
      Acquire 3, Acquire 4, Enter 3, Enter 4]"


text \<open>
  The root page links to \<^verbatim>\<open>/a\<close> and \<^verbatim>\<open>/c\<close>, and \<^verbatim>\<open>/a\<close> links to \<^verbatim>\<open>/c\<close> too: two workers
  hold the same URL, one at depth 1 and one at depth 2. In the first run the deeper one
  goes first and its fetch fails; the second run stops when both are about to start.
\<close>

definition ex_rediscover_schedule :: "action list" where
  "ex_rediscover_schedule =
     [Enter 0, Fetched 0 (ex_env ex_ok) ''<a href=/a>a</a><a href=/c>c</a>'' 10,
      Acquire 1, Acquire 2, Enter 1,
      Fetched 1 (ex_env ex_ok) ''<a href=/c>c</a>'' 20,
      Acquire 3, Enter 3, Fetched 3 (ex_env ex_http_500) [] 30, Enter 2]"

definition ex_both_entered_schedule :: "action list" where
  "ex_both_entered_schedule =
     [Enter 0, Fetched 0 (ex_env ex_ok) ''<a href=/a>a</a><a href=/c>c</a>'' 10,
      Acquire 1, Acquire 2, Enter 1,
      Fetched 1 (ex_env ex_ok) ''<a href=/c>c</a>'' 20,
      Acquire 3]"

text \<open>
  The scenario of the specification: a page with a script, a link to \<^verbatim>\<open>/a\<close> and a link
  to another host, crawled to the end.
\<close>

definition ex_scenario_schedule :: "action list" where
  "ex_scenario_schedule =
     [Enter 0,
      Fetched 0 (ex_env ex_ok)
        ''<script src=/a.js></script><a href=/a>a</a><a href=https://other.test/p>o</a>'' 10,
      Acquire 1, Enter 1, Fetched 1 (ex_env ex_ok) [] 20,
      Join 1, Release 1, Finish 1, Join 0]"



definition ex_crawl :: "int \<Rightarrow> int \<Rightarrow> action list \<Rightarrow> crawler" where
  "ex_crawl maxDepth threads sched =
     snd (CrawlDomain ex_lib (ex_config maxDepth threads) NetworkRetryConfig None
            ''https://x.test/'' sched New)"

section \<open>Properties of the error taxonomy\<close>

lemma WrapError_AppError_fields:
  "\<exists>ts'. WrapError now (Some (AppError ty msg cause ctx ts rt)) m
     = Some (AppError ty (m @ '': '' @ msg) cause ctx ts' rt)"
  by simp

lemma wrap_many_AppError:
  "\<exists>msg' ts'. wrap_many (Some (AppError ty msg cause ctx ts rt)) ms
     = Some (AppError ty msg' cause ctx ts' rt)"
proof (induction ms arbitrary: msg ts)
  case Nil
  show ?case by simp
next
  case (Cons p ps)
  obtain now m where p: "p = (now, m)" by (cases p)
  from Cons.IH [of "m @ '': '' @ msg" now] show ?case
    by (simp add: p)
qed

text \<open>
  Claim C8. Wrapping a typed application error \<open>e\<close> with a message \<open>m\<close> gives a typed
  application error of the same kind and the same retryable flag whose message is
  \<open>m\<close>, a colon and a space, then the message of \<open>e\<close>; and wrapping any number of
  times, with any messages, leaves the kind and the retryable flag of \<open>e\<close> unchanged.
\<close>

theorem WrapError_preserves_classification:
  "(\<exists>e'. WrapError now (Some (AppError ty msg cause ctx ts rt)) m = Some e'
        \<and> Type e' = ty \<and> Retryable e' = rt \<and> IsRetryable e' = rt
        \<and> Message e' = m @ '': '' @ msg)
   \<and> (\<exists>e''. wrap_many (Some (AppError ty msg cause ctx ts rt)) ms = Some e''
        \<and> Type e'' = ty \<and> Retryable e'' = rt \<and> IsRetryable e'' = rt)"
proof
  show "\<exists>e'. WrapError now (Some (AppError ty msg cause ctx ts rt)) m = Some e'
        \<and> Type e' = ty \<and> Retryable e' = rt \<and> IsRetryable e' = rt
        \<and> Message e' = m @ '': '' @ msg"
    by simp
next
  obtain msg' ts' where
    "wrap_many (Some (AppError ty msg cause ctx ts rt)) ms
       = Some (AppError ty msg' cause ctx ts' rt)"
    using wrap_many_AppError by blast
  then show "\<exists>e''. wrap_many (Some (AppError ty msg cause ctx ts rt)) ms = Some e''
        \<and> Type e'' = ty \<and> Retryable e'' = rt \<and> IsRetryable e'' = rt"
    by simp
qed

theorem WrapError_preserves_classification_witness:
  "Type (the (WrapError 7 (Some (NewValidationError 3 ''bad seed'' None)) ''crawl''))
     = ValidationError
   \<and> Message (the (WrapError 7 (Some (NewValidationError 3 ''bad seed'' None)) ''crawl''))
     = ''crawl: bad seed''
   \<and> Retryable (the (wrap_many (Some (NewHTTPError 3 ''HTTP error'' 500 None))
                      [(4, ''a''), (5, ''b''), (6, ''c'')])) = True
   \<and> Type (the (wrap_many (Some (NewHTTPError 3 ''HTTP error'' 500 None))
                      [(4, ''a''), (5, ''b''), (6, ''c'')])) = HTTPError"
  using WrapError_preserves_classification
    [of 7 ValidationError "''bad seed''" None "[]" 3 False "''crawl''" "[]"]
  by (simp add: NewValidationError_def NewHTTPError_def NewError_def)

section \<open>Properties of the retry executor\<close>

lemma isErrorRetryable_Some: "isErrorRetryable x rs \<Longrightarrow> \<exists>e. x = Some e"
  by (cases x) auto

lemma isErrorRetryable_AppError:
  "isErrorRetryable (Some (AppError ty msg cause ctx ts rt)) rs = (ty \<in> set rs \<and> rt)"
  by (induction rs) auto

lemma Retry_loop_step:
  assumes "attempt_retried env config a" "a < MaxAttempts config"
  shows "Retry_loop env config a res ds =
         Retry_loop env config (a + 1)
           (res\<lparr>Attempts := a, LastError := attempt_fn env a,
                AllErrors := AllErrors res @ [the (attempt_fn env a)]\<rparr>)
           (ds @ [calculated_delay env a])"
proof -
  obtain e where e: "attempt_fn env a = Some e"
    using assms(1) isErrorRetryable_Some unfolding attempt_retried_def by blast
  show ?thesis
    using assms e unfolding attempt_retried_def
    by (subst Retry_loop.simps) (simp add: Let_def)
qed

lemma Retry_loop_advance:
  assumes "a \<le> k" "k \<le> MaxAttempts config"
    and "\<forall>i. a \<le> i \<and> i < k \<longrightarrow> attempt_retried env config i"
  shows "Retry_loop env config a res ds =
         Retry_loop env config k
           (res\<lparr>Attempts := (if a < k then k - 1 else Attempts res),
                LastError := (if a < k then attempt_fn env (k - 1) else LastError res),
                AllErrors := AllErrors res @ map (\<lambda>i. the (attempt_fn env i)) [a..k - 1]\<rparr>)
           (ds @ map (calculated_delay env) [a..k - 1])"
  using assms
proof (induction k rule: int_ge_induct)
  case base
  show ?case by simp
next
  case (step k)
  have IH: "Retry_loop env config a res ds =
         Retry_loop env config k
           (res\<lparr>Attempts := (if a < k then k - 1 else Attempts res),
                LastError := (if a < k then attempt_fn env (k - 1) else LastError res),
                AllErrors := AllErrors res @ map (\<lambda>i. the (attempt_fn env i)) [a..k - 1]\<rparr>)
           (ds @ map (calculated_delay env) [a..k - 1])"
    using step by simp
  have r: "attempt_retried env config k" using step by simp
  have lt: "k < MaxAttempts config" using step by simp
  have up: "[a..k] = [a..k - 1] @ [k]" using step(1) by (simp add: upto_rec2)
  show ?case
    unfolding IH using step(1)
    by (subst Retry_loop_step [OF r lt]) (simp add: up)
qed

lemma Retry_loop_terminal:
  assumes "k \<le> MaxAttempts config" "\<not> ctx_done_before env k"
    and "attempt_fn env k = Some e" "\<not> isErrorRetryable (Some e) (RetryableErrors config)"
  shows "Retry_loop env config k res ds =
           (res\<lparr>Attempts := k, LastError := Some e, AllErrors := AllErrors res @ [e]\<rparr>, ds)"
  using assms by (subst Retry_loop.simps) (simp add: Let_def)

lemma Retry_loop_success:
  assumes "k \<le> MaxAttempts config" "\<not> ctx_done_before env k" "attempt_fn env k = None"
  shows "Retry_loop env config k res ds = (res\<lparr>Attempts := k, Success := True\<rparr>, ds)"
  using assms by (subst Retry_loop.simps) (simp add: Let_def)

lemma Retry_loop_Success_inv:
  "\<not> Success res \<Longrightarrow> Retry_loop env config a res ds = (r, ds') \<Longrightarrow> Success r \<Longrightarrow>
     a \<le> Attempts r \<and> (Attempts r = a \<longrightarrow> LastError r = LastError res)
     \<and> (a < Attempts r \<longrightarrow> LastError r \<noteq> None)"
proof (induction env config a res ds rule: Retry_loop.induct)
  case (1 env config attempt result delays)
  show ?case
  proof (cases "attempt \<le> MaxAttempts config \<and> \<not> ctx_done_before env attempt
                \<and> attempt_retried env config attempt \<and> attempt \<noteq> MaxAttempts config")
    case True
    then obtain e where e: "attempt_fn env attempt = Some e"
      using isErrorRetryable_Some unfolding attempt_retried_def by blast
    let ?res = "result\<lparr>Attempts := attempt, LastError := Some e,
                        AllErrors := AllErrors result @ [e]\<rparr>"
    let ?ds = "delays @ [calculated_delay env attempt]"
    have eq: "Retry_loop env config attempt result delays
                = Retry_loop env config (attempt + 1) ?res ?ds"
      using True e unfolding attempt_retried_def
      by (subst Retry_loop.simps) (simp add: Let_def)
    have "attempt + 1 \<le> Attempts r \<and> (Attempts r = attempt + 1 \<longrightarrow> LastError r = LastError ?res)
          \<and> (attempt + 1 < Attempts r \<longrightarrow> LastError r \<noteq> None)"
      using "1.IH" [of "result\<lparr>Attempts := attempt\<rparr>" e ?res
                       "calculated_delay env attempt"]
        True e "1.prems" eq unfolding attempt_retried_def by simp
    then show ?thesis by auto
  next
    case False
    then show ?thesis
      using "1.prems" unfolding attempt_retried_def
      by (subst (asm) Retry_loop.simps)
         (auto simp: Let_def split: if_splits option.splits)
  qed
qed

text \<open>
  Claim C5. If the loop reaches attempt \<open>k\<close> (every earlier attempt was retried) and
  attempt \<open>k\<close> fails with a typed error whose kind is not among the retryable kinds of
  the configuration, or whose retryable flag is false, then \<^verbatim>\<open>Retry\<close> returns at once:
  \<open>Success\<close> is false and \<open>Attempts\<close> is \<open>k\<close>, however large \<open>MaxAttempts\<close> is; the
  last error is that error and the history holds the \<open>k\<close> errors met.
\<close>

theorem Retry_stops_on_terminal_error:
  assumes "1 \<le> k" and "k \<le> MaxAttempts config"
    and "\<forall>i. 1 \<le> i \<and> i < k \<longrightarrow> attempt_retried env config i"
    and "\<not> ctx_done_before env k"
    and "attempt_fn env k = Some (AppError ty msg cause ctx ts rt)"
    and "ty \<notin> set (RetryableErrors config) \<or> \<not> rt"
  shows "Success (Retry env (Some config)) = False
       \<and> Attempts (Retry env (Some config)) = k
       \<and> LastError (Retry env (Some config)) = Some (AppError ty msg cause ctx ts rt)
       \<and> AllErrors (Retry env (Some config)) = map (\<lambda>i. the (attempt_fn env i)) [1..k]"
proof -
  let ?e = "AppError ty msg cause ctx ts rt"
  have nr: "\<not> isErrorRetryable (Some ?e) (RetryableErrors config)"
    using assms(6) by (simp add: isErrorRetryable_AppError)
  have up: "[1..k] = [1..k - 1] @ [k]" using assms(1) by (simp add: upto_rec2)
  show ?thesis
    unfolding Retry_def Retry_run_def
    by (simp add: Retry_loop_advance [OF assms(1) assms(2) assms(3)]
          Retry_loop_terminal [OF assms(2) assms(4) assms(5) nr] up assms(5))
qed

theorem Retry_stops_on_terminal_error_witness:
  "Success (Retry (ex_env ex_invalid) (Some NetworkRetryConfig)) = False
   \<and> Attempts (Retry (ex_env ex_invalid) (Some NetworkRetryConfig)) = 1
   \<and> MaxAttempts NetworkRetryConfig = 5
   \<and> Success (Retry (ex_env ex_fail_then_invalid) (Some NetworkRetryConfig)) = False
   \<and> Attempts (Retry (ex_env ex_fail_then_invalid) (Some NetworkRetryConfig)) = 2"
proof -
  have h1: "\<forall>i. 1 \<le> i \<and> i < 1 \<longrightarrow> attempt_retried (ex_env ex_invalid) NetworkRetryConfig i"
    by auto
  have h2: "\<forall>i. 1 \<le> i \<and> i < 2 \<longrightarrow>
              attempt_retried (ex_env ex_fail_then_invalid) NetworkRetryConfig i"
  proof (intro allI impI)
    fix i :: int assume "1 \<le> i \<and> i < 2"
    then have "i = 1" by simp
    then show "attempt_retried (ex_env ex_fail_then_invalid) NetworkRetryConfig i"
      by (simp add: attempt_retried_def ex_env_def ex_fail_then_invalid_def
            NetworkRetryConfig_def NewNetworkError_def NewError_def)
  qed
  have a: "Success (Retry (ex_env ex_invalid) (Some NetworkRetryConfig)) = False
         \<and> Attempts (Retry (ex_env ex_invalid) (Some NetworkRetryConfig)) = 1"
    using Retry_stops_on_terminal_error
      [of 1 NetworkRetryConfig "ex_env ex_invalid" ValidationError "''invalid seed''"
          None "[]" 1 False, OF _ _ h1]
    by (simp add: ex_env_def ex_invalid_def NetworkRetryConfig_def NewValidationError_def
          NewError_def)
  have b: "Success (Retry (ex_env ex_fail_then_invalid) (Some NetworkRetryConfig)) = False
         \<and> Attempts (Retry (ex_env ex_fail_then_invalid) (Some NetworkRetryConfig)) = 2"
    using Retry_stops_on_terminal_error
      [of 2 NetworkRetryConfig "ex_env ex_fail_then_invalid" ValidationError "''invalid seed''"
          None "[]" 2 False, OF _ _ h2]
    by (simp add: ex_env_def ex_fail_then_invalid_def NetworkRetryConfig_def
          NewValidationError_def NewError_def)
  show ?thesis using a b by (simp add: NetworkRetryConfig_def)
qed

text \<open>
  Claim C9. If the retried function fails on the attempts \<open>1\<close> to \<open>n - 1\<close> and succeeds on
  attempt \<open>n\<close>, with \<open>n > 1\<close>, the result has \<open>Success\<close> true and \<open>Attempts = n\<close>, its
  \<open>LastError\<close> is still the error of attempt \<open>n - 1\<close> (so not nil), its history holds
  the \<open>n - 1\<close> earlier errors, and the function wrapped by \<^verbatim>\<open>WithRetry\<close> returns that
  stale error. For any run at all, a successful result has a nil \<open>LastError\<close> exactly
  when the success came on the first attempt.
\<close>

theorem Retry_success_keeps_stale_LastError:
  assumes "1 < n" and "n \<le> MaxAttempts config"
    and "\<forall>i. 1 \<le> i \<and> i < n \<longrightarrow> attempt_retried env config i"
    and "\<not> ctx_done_before env n"
    and "attempt_fn env n = None"
  shows "Success (Retry env (Some config))
       \<and> Attempts (Retry env (Some config)) = n
       \<and> LastError (Retry env (Some config)) = attempt_fn env (n - 1)
       \<and> LastError (Retry env (Some config)) \<noteq> None
       \<and> AllErrors (Retry env (Some config)) = map (\<lambda>i. the (attempt_fn env i)) [1..n - 1]
       \<and> WithRetry (Some config) env \<noteq> None
       \<and> (Success (Retry env' config') \<longrightarrow>
            (LastError (Retry env' config') = None \<longleftrightarrow> Attempts (Retry env' config') = 1))"
proof -
  have one: "(1::int) \<le> n" using assms(1) by simp
  have "attempt_retried env config (n - 1)" using assms(1,3) by simp
  then have prev: "attempt_fn env (n - 1) \<noteq> None"
    using isErrorRetryable_Some unfolding attempt_retried_def by fastforce
  have main: "Retry env (Some config) =
       \<lparr>Success = True, Attempts = n, LastError = attempt_fn env (n - 1),
        AllErrors = map (\<lambda>i. the (attempt_fn env i)) [1..n - 1]\<rparr>"
    unfolding Retry_def Retry_run_def using assms(1)
    by (simp add: Retry_loop_advance [OF one assms(2) assms(3)]
          Retry_loop_success [OF assms(2) assms(4) assms(5)])
  have gen: "Success (Retry env' config') \<longrightarrow>
            (LastError (Retry env' config') = None \<longleftrightarrow> Attempts (Retry env' config') = 1)"
  proof
    assume s: "Success (Retry env' config')"
    define c where "c = (case config' of None \<Rightarrow> DefaultRetryConfig | Some c \<Rightarrow> c)"
    define init where "init = \<lparr>Success = False, Attempts = 0, LastError = None, AllErrors = []\<rparr>"
    obtain r ds where rd: "Retry_loop env' c 1 init [] = (r, ds)" by (cases "Retry_loop env' c 1 init []")
    have r: "Retry env' config' = r"
      unfolding Retry_def Retry_run_def using rd by (simp add: c_def init_def)
    have "\<not> Success init" by (simp add: init_def)
    from Retry_loop_Success_inv [OF this rd] s r
    show "LastError (Retry env' config') = None \<longleftrightarrow> Attempts (Retry env' config') = 1"
      by (auto simp: init_def)
  qed
  show ?thesis using main prev gen by (simp add: WithRetry_def)
qed

theorem Retry_success_keeps_stale_LastError_witness:
  "Success (Retry (ex_env ex_fail_then_ok) (Some NetworkRetryConfig))
   \<and> Attempts (Retry (ex_env ex_fail_then_ok) (Some NetworkRetryConfig)) = 2
   \<and> LastError (Retry (ex_env ex_fail_then_ok) (Some NetworkRetryConfig))
       = Some (NewNetworkError 1 ''failed to fetch'' (Some ex_std_refused))
   \<and> AllErrors (Retry (ex_env ex_fail_then_ok) (Some NetworkRetryConfig))
       = [NewNetworkError 1 ''failed to fetch'' (Some ex_std_refused)]
   \<and> WithRetry (Some NetworkRetryConfig) (ex_env ex_fail_then_ok) \<noteq> None
   \<and> Success (Retry (ex_env ex_ok) None)
   \<and> LastError (Retry (ex_env ex_ok) None) = None
   \<and> Attempts (Retry (ex_env ex_ok) None) = 1"
proof -
  have h: "\<forall>i. 1 \<le> i \<and> i < 2 \<longrightarrow>
              attempt_retried (ex_env ex_fail_then_ok) NetworkRetryConfig i"
  proof (intro allI impI)
    fix i :: int assume "1 \<le> i \<and> i < 2"
    then have "i = 1" by simp
    then show "attempt_retried (ex_env ex_fail_then_ok) NetworkRetryConfig i"
      by (simp add: attempt_retried_def ex_env_def ex_fail_then_ok_def
            NetworkRetryConfig_def NewNetworkError_def NewError_def)
  qed
  have ok: "Retry (ex_env ex_ok) None
      = \<lparr>Success = True, Attempts = 1, LastError = None, AllErrors = []\<rparr>"
    by (simp add: Retry_def Retry_run_def Retry_loop.simps [of _ _ 1] ex_env_def ex_ok_def
          DefaultRetryConfig_def)
  have h1: "(1::int) < 2" by simp
  have h2: "2 \<le> MaxAttempts NetworkRetryConfig" by (simp add: NetworkRetryConfig_def)
  have h3: "\<not> ctx_done_before (ex_env ex_fail_then_ok) 2" by (simp add: ex_env_def)
  have h4: "attempt_fn (ex_env ex_fail_then_ok) 2 = None"
    by (simp add: ex_env_def ex_fail_then_ok_def)
  have f1: "attempt_fn (ex_env ex_fail_then_ok) 1
      = Some (NewNetworkError 1 ''failed to fetch'' (Some ex_std_refused))"
    by (simp add: ex_env_def ex_fail_then_ok_def)
  show ?thesis
    using Retry_success_keeps_stale_LastError
      [of 2 NetworkRetryConfig "ex_env ex_fail_then_ok" "ex_env ex_ok" None, OF h1 h2 h h3 h4]
    by (simp add: ok f1)
qed

subsection \<open>The delays\<close>

lemma Retry_loop_delays:
  "Retry_loop env config a res ds = (r, ds') \<Longrightarrow>
     \<exists>n. a - 1 \<le> n \<and> (n < MaxAttempts config \<or> n = a - 1)
        \<and> ds' = ds @ map (calculated_delay env) [a..n]"
proof (induction env config a res ds rule: Retry_loop.induct)
  case (1 env config attempt result delays)
  let ?d = "calculated_delay env attempt"
  show ?case
  proof (cases "attempt \<le> MaxAttempts config \<and> \<not> ctx_done_before env attempt
                \<and> isErrorRetryable (attempt_fn env attempt) (RetryableErrors config)
                \<and> attempt \<noteq> MaxAttempts config")
    case True
    then obtain e where e: "attempt_fn env attempt = Some e"
      by (cases "attempt_fn env attempt") auto
    let ?res = "result\<lparr>Attempts := attempt, LastError := Some e,
                        AllErrors := AllErrors result @ [e]\<rparr>"
    show ?thesis
    proof (cases "ctx_done_in_delay env attempt")
      case True
      have "ds' = delays @ [?d]"
        using "1.prems" \<open>attempt \<le> MaxAttempts config \<and> _\<close> e True
        by (subst (asm) Retry_loop.simps) (auto simp: Let_def)
      then have "attempt - 1 \<le> attempt \<and> (attempt < MaxAttempts config \<or> attempt = attempt - 1)
                 \<and> ds' = delays @ map (calculated_delay env) [attempt..attempt]"
        using \<open>attempt \<le> MaxAttempts config \<and> _\<close> by simp
      then show ?thesis by blast
    next
      case False
      have eq: "Retry_loop env config (attempt + 1) ?res (delays @ [?d]) = (r, ds')"
        using "1.prems" \<open>attempt \<le> MaxAttempts config \<and> _\<close> e False
        by (subst (asm) Retry_loop.simps) (simp add: Let_def)
      obtain n where n: "attempt \<le> n" "n < MaxAttempts config \<or> n = attempt"
          "ds' = (delays @ [?d]) @ map (calculated_delay env) [attempt + 1..n]"
        using "1.IH" [of "result\<lparr>Attempts := attempt\<rparr>" e ?res ?d]
          \<open>attempt \<le> MaxAttempts config \<and> _\<close> e False eq by auto
      have "[attempt..n] = attempt # [attempt + 1..n]" using n(1) by (simp add: upto_rec1)
      then have "attempt - 1 \<le> n \<and> (n < MaxAttempts config \<or> n = attempt - 1)
                 \<and> ds' = delays @ map (calculated_delay env) [attempt..n]"
        using n \<open>attempt \<le> MaxAttempts config \<and> _\<close> by auto
      then show ?thesis by blast
    qed
  next
    case False
    have "ds' = delays"
      using "1.prems" False
      by (subst (asm) Retry_loop.simps)
         (auto simp: Let_def split: if_splits option.splits)
    then have "attempt - 1 \<le> attempt - 1 \<and> (attempt - 1 < MaxAttempts config \<or> attempt - 1 = attempt - 1)
                 \<and> ds' = delays @ map (calculated_delay env) [attempt..attempt - 1]"
      by simp
    then show ?thesis by blast
  qed
qed

text \<open>
  The delays of a run (property X3). Whatever \<^verbatim>\<open>calculateDelay\<close> returns, the delays
  \<^verbatim>\<open>Retry\<close> computes are those after the attempts \<open>1\<close> to \<open>n\<close>, in this order, for some
  \<open>n\<close> below \<open>MaxAttempts\<close> (for \<open>n = 0\<close> there is none): no delay is computed before
  the first attempt or after attempt \<open>MaxAttempts\<close>.
\<close>

theorem Retry_delays_between_attempts:
  "\<exists>n\<ge>0. (n < MaxAttempts config \<or> n = 0)
        \<and> Retry_delays env (Some config) = map (calculated_delay env) [1..n]"
proof -
  obtain r ds where rd: "Retry_loop env config 1
           \<lparr>Success = False, Attempts = 0, LastError = None, AllErrors = []\<rparr> [] = (r, ds)"
    by (cases "Retry_loop env config 1
           \<lparr>Success = False, Attempts = 0, LastError = None, AllErrors = []\<rparr> []") auto
  from Retry_loop_delays [OF rd] show ?thesis
    unfolding Retry_delays_def Retry_run_def using rd by auto
qed

theorem Retry_delays_between_attempts_witness:
  "Attempts (Retry (ex_env ex_http_500) (Some NetworkRetryConfig)) = 5
   \<and> length (Retry_delays (ex_env ex_http_500) (Some NetworkRetryConfig)) < 5
   \<and> Retry_delays (ex_env ex_http_500) (Some NetworkRetryConfig)
       = [200 * Millisecond, 400 * Millisecond, 600 * Millisecond, 800 * Millisecond]"
proof -
  have m: "MaxAttempts NetworkRetryConfig = 5" by (simp add: NetworkRetryConfig_def)
  obtain n where n: "0 \<le> n" "n < 5 \<or> n = 0"
      "Retry_delays (ex_env ex_http_500) (Some NetworkRetryConfig)
         = map (calculated_delay (ex_env ex_http_500)) [1..n]"
    using Retry_delays_between_attempts [of NetworkRetryConfig "ex_env ex_http_500"]
    unfolding m by blast
  have l: "length (Retry_delays (ex_env ex_http_500) (Some NetworkRetryConfig)) < 5"
    unfolding n(3) using n(1,2) by auto
  have a: "Attempts (Retry (ex_env ex_http_500) (Some NetworkRetryConfig)) = 5"
    by code_simp
  have d: "Retry_delays (ex_env ex_http_500) (Some NetworkRetryConfig)
       = [200 * Millisecond, 400 * Millisecond, 600 * Millisecond, 800 * Millisecond]"
    by code_simp
  show ?thesis using l a d by blast
qed

section \<open>Properties of the traversal engine\<close>

subsection \<open>What each operation leaves alone\<close>

lemma set_phase_fields [simp]:
  "visited (set_phase i ph s) = visited s"
  "fetch_log (set_phase i ph s) = fetch_log s"
  "error_log (set_phase i ph s) = error_log s"
  "panicked (set_phase i ph s) = panicked s"
  "length (tasks (set_phase i ph s)) = length (tasks s)"
  by (simp_all add: set_phase_def)

lemma set_phase_urls [simp]:
  "map task_url (tasks (set_phase i ph s)) = map task_url (tasks s)"
  by (cases "i < length (tasks s)")
     (simp_all add: set_phase_def map_update list_update_same_conv list_update_beyond not_less)

lemma set_phase_nth:
  "j < length (tasks s) \<Longrightarrow>
   tasks (set_phase i ph s) ! j
     = (if j = i then (tasks s ! j)\<lparr>task_phase := ph\<rparr> else tasks s ! j)"
  by (simp add: set_phase_def nth_list_update)

lemma set_phase_phase:
  "i < length (tasks s) \<Longrightarrow> task_phase (tasks (set_phase i ph s) ! i) = ph"
  by (simp add: set_phase_def)

lemma LogError_fields [simp]:
  "visited (LogError e c s) = visited s"
  "fetch_log (LogError e c s) = fetch_log s"
  "tasks (LogError e c s) = tasks s"
  "panicked (LogError e c s) = panicked s"
  by (simp_all add: LogError_def split: option.splits)


lemma addJSFile_fields [simp]:
  "visited (addJSFile cfg u s) = visited s"
  "fetch_log (addJSFile cfg u s) = fetch_log s"
  "tasks (addJSFile cfg u s) = tasks s"
  "error_log (addJSFile cfg u s) = error_log s"
  "panicked (addJSFile cfg u s) = panicked s"
  by (simp_all add: addJSFile_def Let_def split: option.splits)

lemma add_matches_fields [simp]:
  "visited (add_matches lib cfg b ms s) = visited s"
  "fetch_log (add_matches lib cfg b ms s) = fetch_log s"
  "tasks (add_matches lib cfg b ms s) = tasks s"
  "error_log (add_matches lib cfg b ms s) = error_log s"
  "panicked (add_matches lib cfg b ms s) = panicked s"
  by (induction ms arbitrary: s) simp_all

lemma extractJSFromHTML_fields [simp]:
  "visited (extractJSFromHTML lib cfg h b s) = visited s"
  "fetch_log (extractJSFromHTML lib cfg h b s) = fetch_log s"
  "tasks (extractJSFromHTML lib cfg h b s) = tasks s"
  "error_log (extractJSFromHTML lib cfg h b s) = error_log s"
  "panicked (extractJSFromHTML lib cfg h b s) = panicked s"
  by (simp_all add: extractJSFromHTML_def)

lemma crawlURL_entry_fields [simp]:
  "tasks (fst (crawlURL_entry cfg u d s)) = tasks s"
  "error_log (fst (crawlURL_entry cfg u d s)) = error_log s"
  "panicked (fst (crawlURL_entry cfg u d s)) = panicked s"
  by (simp_all add: crawlURL_entry_def)


lemma crawlURL_fetched_fields [simp]:
  "visited (crawlURL_fetched lib cfg rc i env body now s) = visited s"
  "fetch_log (crawlURL_fetched lib cfg rc i env body now s) = fetch_log s"
  by (simp_all add: crawlURL_fetched_def Let_def)

lemma setupOutput_fields [simp]:
  "visited (fst (setupOutput cfg ce s)) = visited s"
  "fetch_log (fst (setupOutput cfg ce s)) = fetch_log s"
  "tasks (fst (setupOutput cfg ce s)) = tasks s"
  "error_log (fst (setupOutput cfg ce s)) = error_log s"
  "panicked (fst (setupOutput cfg ce s)) = panicked s"
  by (simp_all add: setupOutput_def split: option.splits)

lemma step_Enter_eq:
  "i < length (tasks s) \<Longrightarrow> task_phase (tasks s ! i) = Entered \<Longrightarrow>
   enter cfg i s =
     set_phase i
       (if snd (crawlURL_entry cfg (task_url (tasks s ! i)) (task_depth (tasks s ! i)) s)
        then Fetching else Returned None)
       (fst (crawlURL_entry cfg (task_url (tasks s ! i)) (task_depth (tasks s ! i)) s))"
  by (simp add: enter_def split: prod.splits)

lemma run_append: "run lib cfg rc (xs @ ys) s = run lib cfg rc ys (run lib cfg rc xs s)"
  by (induction xs arbitrary: s) simp_all

subsection \<open>The visited set and the log of fetches\<close>

lemma step_visited_fetch_log:
  "(visited (step lib cfg rc a s) = visited s \<and> fetch_log (step lib cfg rc a s) = fetch_log s)
   \<or> (\<exists>i. a = Enter i \<and> i < length (tasks s) \<and> task_phase (tasks s ! i) = Entered
        \<and> task_url (tasks s ! i) \<notin> visited s
        \<and> task_depth (tasks s ! i) \<le> MaxDepth cfg
        \<and> visited (step lib cfg rc a s) = insert (task_url (tasks s ! i)) (visited s)
        \<and> fetch_log (step lib cfg rc a s)
            = fetch_log s @ [(task_url (tasks s ! i), task_depth (tasks s ! i))])"
proof (cases a)
  case (Acquire i)
  then show ?thesis by (simp add: acquire_def split: option.splits)
next
  case (Enter i)
  then show ?thesis by (auto simp: enter_def crawlURL_entry_def)
next
  case (Fetched i env body now)
  then show ?thesis by (simp add: fetched_def)
next
  case (Join i)
  then show ?thesis by (simp add: join_def)
next
  case (Release i)
  then show ?thesis by (simp add: release_def split: phase.splits)
next
  case (Finish i)
  then show ?thesis by (simp add: finish_def split: phase.splits)
qed

lemma step_fetch_inv: "fetch_inv cfg s \<Longrightarrow> fetch_inv cfg (step lib cfg rc a s)"
  using step_visited_fetch_log [of lib cfg rc a s]
  unfolding fetch_inv_def by (elim disjE exE conjE) auto

lemma run_fetch_inv: "fetch_inv cfg s \<Longrightarrow> fetch_inv cfg (run lib cfg rc sched s)"
  by (induction sched arbitrary: s) (simp_all add: step_fetch_inv)

lemma step_visited_mono: "visited s \<subseteq> visited (step lib cfg rc a s)"
  using step_visited_fetch_log [of lib cfg rc a s] by auto

lemma run_visited_mono: "visited s \<subseteq> visited (run lib cfg rc sched s)"
proof (induction sched arbitrary: s)
  case Nil
  show ?case by simp
next
  case (Cons a sched)
  have "visited s \<subseteq> visited (step lib cfg rc a s)" by (rule step_visited_mono)
  also have "\<dots> \<subseteq> visited (run lib cfg rc sched (step lib cfg rc a s))" by (rule Cons.IH)
  finally show ?case by simp
qed

lemma start_crawl_fetch_inv: "fetch_inv cfg s \<Longrightarrow> fetch_inv cfg (start_crawl d s)"
  by (simp add: fetch_inv_def start_crawl_def)

lemma setupOutput_fetch_inv: "fetch_inv cfg s \<Longrightarrow> fetch_inv cfg (fst (setupOutput cfg ce s))"
  by (simp add: fetch_inv_def)

lemma CrawlDomain_fetch_inv:
  "fetch_inv cfg c \<Longrightarrow> fetch_inv cfg (snd (CrawlDomain lib cfg rc ce d sched c))"
proof -
  assume c: "fetch_inv cfg c"
  define c1 where "c1 = (if Verbose cfg
               then c\<lparr>console := console c @ [''Starting crawl of domain: '' @ d]\<rparr> else c)"
  have c1: "fetch_inv cfg c1" using c by (simp add: c1_def fetch_inv_def)
  obtain c2 e where se: "setupOutput cfg ce c1 = (c2, e)" by (cases "setupOutput cfg ce c1")
  have c2: "fetch_inv cfg c2" using setupOutput_fetch_inv [OF c1, of ce] se by simp
  show ?thesis
    unfolding CrawlDomain_def Let_def c1_def [symmetric] se
    using c2 by (cases e) (simp_all add: run_fetch_inv start_crawl_fetch_inv)
qed

lemma stdin_loop_fetch_inv:
  "fetch_inv cfg c \<Longrightarrow> fetch_inv cfg (snd (stdin_loop lib cfg rc lns se c))"
proof (induction lns arbitrary: c)
  case Nil
  then show ?case by simp
next
  case (Cons p lns)
  obtain line sched where p: "p = (line, sched)" by (cases p)
  define d where "d = strings_TrimSpace lib line"
  define c1 where "c1 = (if Verbose cfg
                  then c\<lparr>console := console c @ [''Crawling domain: '' @ d]\<rparr> else c)"
  define s where "s = run lib cfg rc sched (start_crawl d c1)"
  have c1: "fetch_inv cfg c1" using Cons.prems by (simp add: c1_def fetch_inv_def)
  have s: "fetch_inv cfg s" unfolding s_def by (intro run_fetch_inv start_crawl_fetch_inv c1)
  have s': "fetch_inv cfg (s\<lparr>stderr := x\<rparr>)" for x using s by (simp add: fetch_inv_def)
  show ?case
    unfolding p stdin_loop.simps Let_def d_def [symmetric] c1_def [symmetric] s_def [symmetric]
    using Cons.IH [OF s] Cons.IH [OF s'] Cons.IH [OF Cons.prems] s
    by (auto split: outcome.splits option.splits)
qed

lemma CrawlFromStdin_fetch_inv:
  "fetch_inv cfg c \<Longrightarrow> fetch_inv cfg (snd (CrawlFromStdin lib cfg rc ce lns se c))"
proof -
  assume c: "fetch_inv cfg c"
  obtain c2 e where so: "setupOutput cfg ce c = (c2, e)" by (cases "setupOutput cfg ce c")
  have c2: "fetch_inv cfg c2" using setupOutput_fetch_inv [OF c, of ce] so by simp
  show ?thesis
    unfolding CrawlFromStdin_def so using c2
    by (cases e) (simp_all add: stdin_loop_fetch_inv)
qed

lemma New_fetch_inv: "fetch_inv cfg New"
  by (simp add: fetch_inv_def New_def)

text \<open>
  Claim C2. Whatever the scheduler and the network do, in a session started by
  \<^verbatim>\<open>CrawlDomain\<close> or by \<^verbatim>\<open>CrawlFromStdin\<close> no URL starts two fetches, and every URL that
  started a fetch is in the visited set: the test and the insertion are one step, taken
  before the fetch. The visited set never shrinks as the session goes on, and a call for
  a URL already in it returns without fetching, whether the earlier fetch failed or not.
\<close>

theorem no_url_fetched_twice:
  "distinct (map fst (fetch_log (snd (CrawlDomain lib cfg rc ce domain sched New))))
   \<and> fst ` set (fetch_log (snd (CrawlDomain lib cfg rc ce domain sched New)))
        \<subseteq> visited (snd (CrawlDomain lib cfg rc ce domain sched New))
   \<and> distinct (map fst (fetch_log (snd (CrawlFromStdin lib cfg rc ce lns scan_err New))))
   \<and> fst ` set (fetch_log (snd (CrawlFromStdin lib cfg rc ce lns scan_err New)))
        \<subseteq> visited (snd (CrawlFromStdin lib cfg rc ce lns scan_err New))
   \<and> visited (run lib cfg rc sched s) \<subseteq> visited (run lib cfg rc (sched @ later) s)
   \<and> (targetURL \<in> visited s \<longrightarrow> crawlURL_entry cfg targetURL depth s = (s, False))"
proof -
  have d: "fetch_inv cfg (snd (CrawlDomain lib cfg rc ce domain sched New))"
    by (rule CrawlDomain_fetch_inv [OF New_fetch_inv])
  have f: "fetch_inv cfg (snd (CrawlFromStdin lib cfg rc ce lns scan_err New))"
    by (rule CrawlFromStdin_fetch_inv [OF New_fetch_inv])
  have m: "visited (run lib cfg rc sched s) \<subseteq> visited (run lib cfg rc (sched @ later) s)"
    unfolding run_append by (rule run_visited_mono)
  have e: "targetURL \<in> visited s \<longrightarrow> crawlURL_entry cfg targetURL depth s = (s, False)"
    by (simp add: crawlURL_entry_def)
  show ?thesis using d f m e unfolding fetch_inv_def by simp
qed

theorem no_url_fetched_twice_witness:
  "distinct (map fst (fetch_log (ex_crawl 2 2 ex_rediscover_schedule)))
   \<and> map fst (fetch_log (ex_crawl 2 2 ex_rediscover_schedule))
       = [''https://x.test/'', ''https://x.test/a'', ''https://x.test/c'']
   \<and> ''https://x.test/c'' \<in> visited (ex_crawl 2 2 ex_rediscover_schedule)
   \<and> crawlURL_entry (ex_config 2 2) ''https://x.test/c'' 1 (ex_crawl 2 2 ex_rediscover_schedule)
       = (ex_crawl 2 2 ex_rediscover_schedule, False)"
proof -
  have v: "''https://x.test/c'' \<in> visited (ex_crawl 2 2 ex_rediscover_schedule)"
    by code_simp
  have l: "map fst (fetch_log (ex_crawl 2 2 ex_rediscover_schedule))
       = [''https://x.test/'', ''https://x.test/a'', ''https://x.test/c'']"
    by code_simp
  note T = no_url_fetched_twice [where lib = ex_lib and cfg = "ex_config 2 2"
      and rc = NetworkRetryConfig and ce = None and domain = "''https://x.test/''"
      and sched = ex_rediscover_schedule and s = "ex_crawl 2 2 ex_rediscover_schedule"
      and targetURL = "''https://x.test/c''" and depth = 1]
  have d: "distinct (map fst (fetch_log (ex_crawl 2 2 ex_rediscover_schedule)))"
    unfolding ex_crawl_def by (rule T [THEN conjunct1])
  have e: "crawlURL_entry (ex_config 2 2) ''https://x.test/c'' 1
             (ex_crawl 2 2 ex_rediscover_schedule)
       = (ex_crawl 2 2 ex_rediscover_schedule, False)"
    by (rule T [THEN conjunct2, THEN conjunct2, THEN conjunct2, THEN conjunct2, THEN conjunct2,
                THEN mp, OF v])
  show ?thesis by (intro conjI d l v e)
qed

text \<open>
  Claim C3. The depth bound is inclusive. A call at depth \<open>MaxDepth\<close> for a URL not yet
  visited goes on to fetch; a call at a depth above \<open>MaxDepth\<close> returns nil at once,
  starts no fetch and leaves the visited set alone. No fetch of a session started by
  \<^verbatim>\<open>CrawlDomain\<close> is at a depth above \<open>MaxDepth\<close>.
\<close>

theorem depth_cutoff_inclusive:
  "(depth = MaxDepth cfg \<and> targetURL \<notin> visited s \<longrightarrow>
      crawlURL_entry cfg targetURL depth s
        = (s\<lparr>visited := insert targetURL (visited s),
              fetch_log := fetch_log s @ [(targetURL, depth)]\<rparr>, True))
   \<and> (depth > MaxDepth cfg \<longrightarrow> crawlURL_entry cfg targetURL depth s = (s, False))
   \<and> (i < length (tasks s) \<and> task_phase (tasks s ! i) = Entered \<and> \<not> panicked s
        \<and> task_depth (tasks s ! i) = MaxDepth cfg \<and> task_url (tasks s ! i) \<notin> visited s \<longrightarrow>
        task_phase (tasks (step lib cfg rc (Enter i) s) ! i) = Fetching
        \<and> fetch_log (step lib cfg rc (Enter i) s)
            = fetch_log s @ [(task_url (tasks s ! i), task_depth (tasks s ! i))])
   \<and> (i < length (tasks s) \<and> task_phase (tasks s ! i) = Entered \<and> \<not> panicked s
        \<and> task_depth (tasks s ! i) > MaxDepth cfg \<longrightarrow>
        task_phase (tasks (step lib cfg rc (Enter i) s) ! i) = Returned None
        \<and> fetch_log (step lib cfg rc (Enter i) s) = fetch_log s
        \<and> visited (step lib cfg rc (Enter i) s) = visited s)
   \<and> (\<forall>p \<in> set (fetch_log (snd (CrawlDomain lib cfg rc ce domain sched New))).
         snd p \<le> MaxDepth cfg)"
proof -
  have a: "depth = MaxDepth cfg \<and> targetURL \<notin> visited s \<longrightarrow>
      crawlURL_entry cfg targetURL depth s
        = (s\<lparr>visited := insert targetURL (visited s),
              fetch_log := fetch_log s @ [(targetURL, depth)]\<rparr>, True)"
    by (simp add: crawlURL_entry_def)
  have b: "depth > MaxDepth cfg \<longrightarrow> crawlURL_entry cfg targetURL depth s = (s, False)"
    by (simp add: crawlURL_entry_def)
  have c: "i < length (tasks s) \<and> task_phase (tasks s ! i) = Entered \<and> \<not> panicked s
        \<and> task_depth (tasks s ! i) = MaxDepth cfg \<and> task_url (tasks s ! i) \<notin> visited s \<longrightarrow>
        task_phase (tasks (step lib cfg rc (Enter i) s) ! i) = Fetching
        \<and> fetch_log (step lib cfg rc (Enter i) s)
            = fetch_log s @ [(task_url (tasks s ! i), task_depth (tasks s ! i))]"
    by (simp add: step_Enter_eq crawlURL_entry_def set_phase_phase)
  have d: "i < length (tasks s) \<and> task_phase (tasks s ! i) = Entered \<and> \<not> panicked s
        \<and> task_depth (tasks s ! i) > MaxDepth cfg \<longrightarrow>
        task_phase (tasks (step lib cfg rc (Enter i) s) ! i) = Returned None
        \<and> fetch_log (step lib cfg rc (Enter i) s) = fetch_log s
        \<and> visited (step lib cfg rc (Enter i) s) = visited s"
    by (simp add: step_Enter_eq crawlURL_entry_def set_phase_phase)
  have "fetch_inv cfg (snd (CrawlDomain lib cfg rc ce domain sched New))"
    by (rule CrawlDomain_fetch_inv [OF New_fetch_inv])
  then have e: "\<forall>p \<in> set (fetch_log (snd (CrawlDomain lib cfg rc ce domain sched New))).
         snd p \<le> MaxDepth cfg"
    unfolding fetch_inv_def by simp
  show ?thesis by (intro conjI a b c d e)
qed

theorem depth_cutoff_inclusive_witness:
  "task_depth (tasks (ex_crawl 1 2 ex_both_entered_schedule) ! 2) = MaxDepth (ex_config 1 2)
   \<and> task_phase (tasks (step ex_lib (ex_config 1 2) NetworkRetryConfig (Enter 2)
                          (ex_crawl 1 2 ex_both_entered_schedule)) ! 2) = Fetching
   \<and> MaxDepth (ex_config 1 2) < task_depth (tasks (ex_crawl 1 2 ex_both_entered_schedule) ! 3)
   \<and> task_phase (tasks (step ex_lib (ex_config 1 2) NetworkRetryConfig (Enter 3)
                          (ex_crawl 1 2 ex_both_entered_schedule)) ! 3) = Returned None
   \<and> fetch_log (step ex_lib (ex_config 1 2) NetworkRetryConfig (Enter 3)
                  (ex_crawl 1 2 ex_both_entered_schedule))
       = fetch_log (ex_crawl 1 2 ex_both_entered_schedule)"
proof -
  let ?s = "ex_crawl 1 2 ex_both_entered_schedule"
  have h2: "2 < length (tasks ?s) \<and> task_phase (tasks ?s ! 2) = Entered \<and> \<not> panicked ?s
        \<and> task_depth (tasks ?s ! 2) = MaxDepth (ex_config 1 2)
        \<and> task_url (tasks ?s ! 2) \<notin> visited ?s"
    by code_simp
  have h3: "3 < length (tasks ?s) \<and> task_phase (tasks ?s ! 3) = Entered \<and> \<not> panicked ?s
        \<and> task_depth (tasks ?s ! 3) > MaxDepth (ex_config 1 2)"
    by code_simp
  have a: "task_phase (tasks (step ex_lib (ex_config 1 2) NetworkRetryConfig (Enter 2) ?s) ! 2)
             = Fetching"
    using depth_cutoff_inclusive [where cfg = "ex_config 1 2" and s = ?s and i = 2
        and lib = ex_lib and rc = NetworkRetryConfig,
        THEN conjunct2, THEN conjunct2, THEN conjunct1, THEN mp, OF h2]
    by (rule conjunct1)
  have b: "task_phase (tasks (step ex_lib (ex_config 1 2) NetworkRetryConfig (Enter 3) ?s) ! 3)
             = Returned None
        \<and> fetch_log (step ex_lib (ex_config 1 2) NetworkRetryConfig (Enter 3) ?s) = fetch_log ?s
        \<and> visited (step ex_lib (ex_config 1 2) NetworkRetryConfig (Enter 3) ?s) = visited ?s"
    by (rule depth_cutoff_inclusive [where cfg = "ex_config 1 2" and s = ?s and i = 3
        and lib = ex_lib and rc = NetworkRetryConfig,
        THEN conjunct2, THEN conjunct2, THEN conjunct2, THEN conjunct1, THEN mp, OF h3])
  show ?thesis using h2 h3 a b by simp
qed

text \<open>
  Claim C10. A call dropped for its depth does not put its URL into the visited set,
  the depth check coming first: when the same URL is reached again at a depth within
  the bound, it is fetched. This holds of \<^verbatim>\<open>crawlURL\<close> alone and of two workers that
  hold the same URL, the deep one going first.
\<close>

theorem dropped_url_not_marked_visited:
  assumes "targetURL \<notin> visited s" and "MaxDepth cfg < d1" and "d2 \<le> MaxDepth cfg"
  shows "crawlURL_entry cfg targetURL d1 s = (s, False)
       \<and> targetURL \<notin> visited (fst (crawlURL_entry cfg targetURL d1 s))
       \<and> crawlURL_entry cfg targetURL d2 (fst (crawlURL_entry cfg targetURL d1 s))
           = (s\<lparr>visited := insert targetURL (visited s),
                 fetch_log := fetch_log s @ [(targetURL, d2)]\<rparr>, True)
       \<and> (i < length (tasks s) \<and> j < length (tasks s) \<and> i \<noteq> j \<and> \<not> panicked s
            \<and> task_phase (tasks s ! i) = Entered \<and> task_phase (tasks s ! j) = Entered
            \<and> task_url (tasks s ! i) = targetURL \<and> task_url (tasks s ! j) = targetURL
            \<and> task_depth (tasks s ! i) = d1 \<and> task_depth (tasks s ! j) = d2 \<longrightarrow>
            task_phase (tasks (step lib cfg rc (Enter i) s) ! i) = Returned None
            \<and> visited (step lib cfg rc (Enter i) s) = visited s
            \<and> task_phase (tasks (run lib cfg rc [Enter i, Enter j] s) ! j) = Fetching
            \<and> fetch_log (run lib cfg rc [Enter i, Enter j] s) = fetch_log s @ [(targetURL, d2)])"
proof -
  have a: "crawlURL_entry cfg targetURL d1 s = (s, False)"
    using assms by (simp add: crawlURL_entry_def)
  have b: "crawlURL_entry cfg targetURL d2 s
           = (s\<lparr>visited := insert targetURL (visited s),
                 fetch_log := fetch_log s @ [(targetURL, d2)]\<rparr>, True)"
    using assms by (simp add: crawlURL_entry_def)
  have c: "task_phase (tasks (step lib cfg rc (Enter i) s) ! i) = Returned None
            \<and> visited (step lib cfg rc (Enter i) s) = visited s
            \<and> task_phase (tasks (run lib cfg rc [Enter i, Enter j] s) ! j) = Fetching
            \<and> fetch_log (run lib cfg rc [Enter i, Enter j] s) = fetch_log s @ [(targetURL, d2)]"
    if h: "i < length (tasks s)" "j < length (tasks s)" "i \<noteq> j" "\<not> panicked s"
       "task_phase (tasks s ! i) = Entered" "task_phase (tasks s ! j) = Entered"
       "task_url (tasks s ! i) = targetURL" "task_url (tasks s ! j) = targetURL"
       "task_depth (tasks s ! i) = d1" "task_depth (tasks s ! j) = d2"
  proof -
    let ?s1 = "set_phase i (Returned None) s"
    have s1: "step lib cfg rc (Enter i) s = ?s1"
      using h a by (simp add: step_Enter_eq)
    have j1: "tasks ?s1 ! j = tasks s ! j" using h by (simp add: set_phase_nth)
    have e1: "crawlURL_entry cfg targetURL d2 ?s1
           = (?s1\<lparr>visited := insert targetURL (visited ?s1),
                   fetch_log := fetch_log ?s1 @ [(targetURL, d2)]\<rparr>, True)"
      using assms by (simp add: crawlURL_entry_def)
    have s2: "step lib cfg rc (Enter j) ?s1
           = set_phase j Fetching (?s1\<lparr>visited := insert targetURL (visited ?s1),
                   fetch_log := fetch_log ?s1 @ [(targetURL, d2)]\<rparr>)"
      using h j1 e1 by (simp add: step_Enter_eq)
    show ?thesis
      using h unfolding run.simps s1 s2
      by (simp add: set_phase_phase)
  qed
  show ?thesis using a b c assms by simp
qed

theorem dropped_url_not_marked_visited_witness:
  "''https://x.test/c'' \<notin> visited (ex_crawl 1 2 ex_both_entered_schedule)
   \<and> task_depth (tasks (ex_crawl 1 2 ex_both_entered_schedule) ! 3) = 2
   \<and> task_depth (tasks (ex_crawl 1 2 ex_both_entered_schedule) ! 2) = 1
   \<and> visited (step ex_lib (ex_config 1 2) NetworkRetryConfig (Enter 3)
                (ex_crawl 1 2 ex_both_entered_schedule))
       = visited (ex_crawl 1 2 ex_both_entered_schedule)
   \<and> task_phase (tasks (run ex_lib (ex_config 1 2) NetworkRetryConfig [Enter 3, Enter 2]
                          (ex_crawl 1 2 ex_both_entered_schedule)) ! 2) = Fetching
   \<and> fetch_log (run ex_lib (ex_config 1 2) NetworkRetryConfig [Enter 3, Enter 2]
                  (ex_crawl 1 2 ex_both_entered_schedule))
       = fetch_log (ex_crawl 1 2 ex_both_entered_schedule) @ [(''https://x.test/c'', 1)]"
proof -
  let ?s = "ex_crawl 1 2 ex_both_entered_schedule"
  have v: "''https://x.test/c'' \<notin> visited ?s" by code_simp
  have d1: "MaxDepth (ex_config 1 2) < 2" and d2: "1 \<le> MaxDepth (ex_config 1 2)"
    by (simp_all add: ex_config_def)
  have h: "3 < length (tasks ?s) \<and> 2 < length (tasks ?s) \<and> (3::nat) \<noteq> 2 \<and> \<not> panicked ?s
            \<and> task_phase (tasks ?s ! 3) = Entered \<and> task_phase (tasks ?s ! 2) = Entered
            \<and> task_url (tasks ?s ! 3) = ''https://x.test/c''
            \<and> task_url (tasks ?s ! 2) = ''https://x.test/c''
            \<and> task_depth (tasks ?s ! 3) = 2 \<and> task_depth (tasks ?s ! 2) = 1"
    by code_simp
  note T = dropped_url_not_marked_visited [OF v d1 d2, where i = 3 and j = 2
      and lib = ex_lib and rc = NetworkRetryConfig,
      THEN conjunct2, THEN conjunct2, THEN conjunct2, THEN mp, OF h]
  show ?thesis using v h T by simp
qed

subsection \<open>The semaphores\<close>

text \<open>
  Claim C1 says that the fetches in flight never exceed \<open>Threads\<close>, all calls being
  gated by one semaphore. In the code every call of \<^verbatim>\<open>crawlURL\<close> makes its own
  semaphore for its links. With \<open>Threads = 2\<close> and depth 2, after the run
  \<open>ex_fanout_schedule\<close> three fetches are in flight (\<^verbatim>\<open>/b\<close>, \<^verbatim>\<open>/a1\<close> and \<^verbatim>\<open>/a2\<close>), while
  the semaphore of the root page and the semaphore of the page \<^verbatim>\<open>/a\<close> hold two values
  each.
\<close>

theorem per_parent_semaphore_exceeds_Threads:
  "Threads (ex_config 2 2) = 2
   \<and> in_flight (snd (CrawlDomain ex_lib (ex_config 2 2) NetworkRetryConfig None
                      ''https://x.test/'' ex_fanout_schedule New)) = 3
   \<and> slots_in_use (snd (CrawlDomain ex_lib (ex_config 2 2) NetworkRetryConfig None
                      ''https://x.test/'' ex_fanout_schedule New)) 0 = 2
   \<and> slots_in_use (snd (CrawlDomain ex_lib (ex_config 2 2) NetworkRetryConfig None
                      ''https://x.test/'' ex_fanout_schedule New)) 1 = 2"
  by code_simp

lemma length_filter_update:
  "i < length xs \<Longrightarrow>
   length (filter P (xs[i := y])) + (if P (xs ! i) then 1 else 0)
     = length (filter P xs) + (if P y then 1 else 0)"
proof (induction xs arbitrary: i)
  case Nil
  then show ?case by simp
next
  case (Cons x xs)
  show ?case
  proof (cases i)
    case 0
    then show ?thesis by simp
  next
    case (Suc j)
    then have "j < length xs" using Cons.prems by simp
    from Cons.IH [OF this] show ?thesis using Suc by simp
  qed
qed

lemma slots_set_phase:
  assumes "i < length (tasks s)"
  shows "slots_in_use (set_phase i ph s) p
           + (if task_sem (tasks s ! i) = Some p \<and> holds_slot (task_phase (tasks s ! i))
              then 1 else 0)
         = slots_in_use s p
           + (if task_sem (tasks s ! i) = Some p \<and> holds_slot ph then 1 else 0)"
  using length_filter_update [OF assms,
      of "\<lambda>t. task_sem t = Some p \<and> holds_slot (task_phase t)"
         "(tasks s ! i)\<lparr>task_phase := ph\<rparr>"]
  by (simp add: slots_in_use_def set_phase_def)

lemma slots_set_phase_same:
  "i < length (tasks s) \<Longrightarrow> holds_slot ph = holds_slot (task_phase (tasks s ! i)) \<Longrightarrow>
   slots_in_use (set_phase i ph s) p = slots_in_use s p"
  using slots_set_phase [of i s ph p] by (simp split: if_splits)

lemma slots_set_phase_le:
  "i < length (tasks s) \<Longrightarrow> \<not> holds_slot ph \<Longrightarrow>
   slots_in_use (set_phase i ph s) p \<le> slots_in_use s p"
  using slots_set_phase [of i s ph p] by (simp split: if_splits)

lemma slots_frame [simp]:
  "slots_in_use (LogError e c s) p = slots_in_use s p"
  "slots_in_use (extractJSFromHTML lib cfg h b s) p = slots_in_use s p"
  "slots_in_use (fst (crawlURL_entry cfg u d s)) p = slots_in_use s p"
proof -
  have a: "tasks (LogError e c s) = tasks s" by (simp add: LogError_def split: option.splits)
  have "tasks (add_matches lib cfg b ms s) = tasks s" for ms
    by (induction ms arbitrary: s) (simp_all add: addJSFile_def Let_def split: option.splits)
  then have b: "tasks (extractJSFromHTML lib cfg h b s) = tasks s"
    by (simp add: extractJSFromHTML_def)
  have c: "tasks (fst (crawlURL_entry cfg u d s)) = tasks s" by (simp add: crawlURL_entry_def)
  show "slots_in_use (LogError e c s) p = slots_in_use s p"
    "slots_in_use (extractJSFromHTML lib cfg h b s) p = slots_in_use s p"
    "slots_in_use (fst (crawlURL_entry cfg u d s)) p = slots_in_use s p"
    by (simp_all add: slots_in_use_def a b c)
qed

lemma slots_acquire:
  assumes "int (slots_in_use s p) \<le> Threads cfg"
  shows "int (slots_in_use (acquire cfg i s) p) \<le> Threads cfg"
proof (cases "i < length (tasks s) \<and> task_phase (tasks s ! i) = Spawned
              \<and> (\<exists>q. task_sem (tasks s ! i) = Some q \<and> int (slots_in_use s q) < Threads cfg)")
  case False
  then show ?thesis using assms by (auto simp: acquire_def split: option.splits)
next
  case True
  then obtain q where q: "task_sem (tasks s ! i) = Some q" "int (slots_in_use s q) < Threads cfg"
    by blast
  have eq: "acquire cfg i s = set_phase i Entered s" using True q by (simp add: acquire_def)
  have "slots_in_use (set_phase i Entered s) p
          = slots_in_use s p + (if q = p then 1 else 0)"
    using slots_set_phase [of i s Entered p] True q by simp
  then show ?thesis unfolding eq using assms q by (cases "q = p") simp_all
qed

lemma slots_enter: "slots_in_use (enter cfg i s) p = slots_in_use s p"
proof (cases "i < length (tasks s) \<and> task_phase (tasks s ! i) = Entered")
  case False
  then show ?thesis by (auto simp: enter_def)
next
  case True
  let ?r = "crawlURL_entry cfg (task_url (tasks s ! i)) (task_depth (tasks s ! i)) s"
  have t: "tasks (fst ?r) = tasks s" by (simp add: crawlURL_entry_def)
  have eq: "enter cfg i s = set_phase i (if snd ?r then Fetching else Returned None) (fst ?r)"
    using True by (simp add: enter_def split: prod.splits)
  have "slots_in_use (set_phase i (if snd ?r then Fetching else Returned None) (fst ?r)) p
          = slots_in_use (fst ?r) p"
    by (rule slots_set_phase_same) (use True t in simp_all)
  then show ?thesis unfolding eq by simp
qed

lemma slots_append_spawned:
  "slots_in_use (s\<lparr>tasks := tasks s @ map (\<lambda>link. \<lparr>task_url = link, task_depth = d,
        task_sem = q, task_phase = Spawned\<rparr>) ls\<rparr>) p = slots_in_use s p"
  by (simp add: slots_in_use_def filter_empty_conv)

lemma slots_fetched:
  "slots_in_use (fetched lib cfg rc i env body now s) p = slots_in_use s p"
proof (cases "i < length (tasks s) \<and> task_phase (tasks s ! i) = Fetching")
  case False
  then show ?thesis by (auto simp: fetched_def)
next
  case True
  show ?thesis
  proof (cases "Success (Retry env (Some rc))")
    case False
    have "slots_in_use (set_phase i (Returned e) (LogError e c s)) p = slots_in_use s p" for e c
    proof -
      have "slots_in_use (set_phase i (Returned e) (LogError e c s)) p
              = slots_in_use (LogError e c s) p"
        by (rule slots_set_phase_same) (use True in \<open>simp_all add: LogError_def split: option.splits\<close>)
      then show ?thesis by simp
    qed
    then show ?thesis using True False
      by (simp add: fetched_def crawlURL_fetched_def Let_def)
  next
    case succ: True
    let ?s1 = "extractJSFromHTML lib cfg body (task_url (tasks s ! i)) s"
    have t1: "tasks ?s1 = tasks s"
    proof -
      have "tasks (add_matches lib cfg b ms s) = tasks s" for ms b
        by (induction ms arbitrary: s) (simp_all add: addJSFile_def Let_def split: option.splits)
      then show ?thesis by (simp add: extractJSFromHTML_def)
    qed
    show ?thesis
    proof (cases "Threads cfg < 0")
      case True
      then show ?thesis using \<open>i < length (tasks s) \<and> _\<close> succ
        by (simp add: fetched_def crawlURL_fetched_def Let_def slots_in_use_def t1)
    next
      case False
      let ?s2 = "?s1\<lparr>tasks := tasks ?s1 @ map (\<lambda>link. \<lparr>task_url = link,
              task_depth = task_depth (tasks s ! i) + 1, task_sem = Some i,
              task_phase = Spawned\<rparr>) (extractLinks lib body (task_url (tasks s ! i)))\<rparr>"
      have eq: "fetched lib cfg rc i env body now s = set_phase i Waiting ?s2"
        using \<open>i < length (tasks s) \<and> _\<close> succ False
        by (simp add: fetched_def crawlURL_fetched_def Let_def)
      have i2: "i < length (tasks ?s2)" "tasks ?s2 ! i = tasks s ! i"
        using \<open>i < length (tasks s) \<and> _\<close> by (simp_all add: t1 nth_append)
      have "slots_in_use (set_phase i Waiting ?s2) p = slots_in_use ?s2 p"
        by (rule slots_set_phase_same) (use i2 \<open>i < length (tasks s) \<and> _\<close> in simp_all)
      also have "\<dots> = slots_in_use ?s1 p" by (rule slots_append_spawned)
      also have "\<dots> = slots_in_use s p" by simp
      finally show ?thesis unfolding eq .
    qed
  qed
qed

lemma slots_join: "slots_in_use (join i s) p = slots_in_use s p"
  by (auto simp: join_def intro: slots_set_phase_same)

lemma slots_release: "slots_in_use (release i s) p \<le> slots_in_use s p"
proof (cases "i < length (tasks s) \<and> task_sem (tasks s ! i) \<noteq> None
              \<and> (\<exists>r. task_phase (tasks s ! i) = Returned r)")
  case False
  then show ?thesis by (auto simp: release_def split: phase.splits)
next
  case True
  then obtain r where r: "task_phase (tasks s ! i) = Returned r" by blast
  have "slots_in_use (set_phase i (Released r) (LogError r c s)) p
          \<le> slots_in_use (LogError r c s) p" for c
    by (rule slots_set_phase_le) (use True in \<open>simp_all add: LogError_def split: option.splits\<close>)
  then show ?thesis using True r by (simp add: release_def)
qed

lemma slots_finish: "slots_in_use (finish i s) p = slots_in_use s p"
  by (auto simp: finish_def split: phase.splits intro: slots_set_phase_same)

lemma slots_step:
  assumes "int (slots_in_use s p) \<le> Threads cfg"
  shows "int (slots_in_use (step lib cfg rc a s) p) \<le> Threads cfg"
proof (cases a)
  case (Acquire i)
  then show ?thesis using assms slots_acquire [OF assms, of i] by simp
next
  case (Release i)
  then show ?thesis using assms slots_release [of i s p] by simp
qed (use assms in \<open>simp_all add: slots_enter slots_fetched slots_join slots_finish\<close>)

lemma slots_run:
  "int (slots_in_use s p) \<le> Threads cfg \<Longrightarrow>
   int (slots_in_use (run lib cfg rc sched s) p) \<le> Threads cfg"
  by (induction sched arbitrary: s) (simp_all add: slots_step)

text \<open>
  What the semaphores of the code do bound (property X1): for a capacity \<open>Threads\<close> that
  is not negative, the semaphore made by any one call of \<^verbatim>\<open>crawlURL\<close> never holds more
  than \<open>Threads\<close> values, whatever the scheduler does; so at most \<open>Threads\<close> links of
  one page are being crawled at a time.
\<close>

theorem semaphore_of_each_page_bounded:
  "0 \<le> Threads cfg \<longrightarrow>
     int (slots_in_use (snd (CrawlDomain lib cfg rc ce domain sched New)) p) \<le> Threads cfg"
proof
  assume t: "0 \<le> Threads cfg"
  define c1 where "c1 = (if Verbose cfg
               then New\<lparr>console := console New @ [''Starting crawl of domain: '' @ domain]\<rparr>
               else New)"
  have c1: "tasks c1 = []" by (simp add: c1_def New_def)
  obtain c2 r where se: "setupOutput cfg ce c1 = (c2, r)" by (cases "setupOutput cfg ce c1")
  have c2: "tasks c2 = []"
    using se c1 by (auto simp: setupOutput_def split: if_splits option.splits)
  have z: "int (slots_in_use c2 p) \<le> Threads cfg" using t c2 by (simp add: slots_in_use_def)
  have "int (slots_in_use (start_crawl domain c2) p) \<le> Threads cfg"
    using t c2 by (simp add: slots_in_use_def start_crawl_def)
  then have "int (slots_in_use (run lib cfg rc sched (start_crawl domain c2)) p) \<le> Threads cfg"
    by (rule slots_run)
  then show "int (slots_in_use (snd (CrawlDomain lib cfg rc ce domain sched New)) p) \<le> Threads cfg"
    unfolding CrawlDomain_def Let_def c1_def [symmetric] se using z by (cases r) simp_all
qed

theorem semaphore_of_each_page_bounded_witness:
  "slots_in_use (snd (CrawlDomain ex_lib (ex_config 2 2) NetworkRetryConfig None
                      ''https://x.test/'' ex_fanout_schedule New)) 1 = 2
   \<and> int (slots_in_use (snd (CrawlDomain ex_lib (ex_config 2 2) NetworkRetryConfig None
                      ''https://x.test/'' ex_fanout_schedule New)) 1) \<le> Threads (ex_config 2 2)"
proof -
  have t: "0 \<le> Threads (ex_config 2 2)" by (simp add: ex_config_def)
  have a: "slots_in_use (snd (CrawlDomain ex_lib (ex_config 2 2) NetworkRetryConfig None
                      ''https://x.test/'' ex_fanout_schedule New)) 1 = 2"
    by code_simp
  show ?thesis
    using semaphore_of_each_page_bounded [where cfg = "ex_config 2 2" and lib = ex_lib
        and rc = NetworkRetryConfig and ce = None and domain = "''https://x.test/''"
        and sched = ex_fanout_schedule and p = 1, THEN mp, OF t] a
    by simp
qed

subsection \<open>The set of resources\<close>

text \<open>
  Idempotent accumulation of resources (property X2): adding a script URL a second time
  changes nothing, so a URL that was new is written to the output once.
\<close>

theorem addJSFile_idempotent:
  "addJSFile cfg jsURL (addJSFile cfg jsURL s) = addJSFile cfg jsURL s
   \<and> (jsURL \<notin> jsFiles s \<and> c_output s = Some ls \<longrightarrow>
        c_output (addJSFile cfg jsURL (addJSFile cfg jsURL s)) = Some (ls @ [jsURL]))"
  by (auto simp: addJSFile_def Let_def split: option.splits)

theorem addJSFile_idempotent_witness:
  "c_output (addJSFile (ex_config 1 1) ''https://x.test/a.js''
      (addJSFile (ex_config 1 1) ''https://x.test/a.js'' (New\<lparr>c_output := Some []\<rparr>)))
     = Some [''https://x.test/a.js'']"
proof -
  have h: "''https://x.test/a.js'' \<notin> jsFiles (New\<lparr>c_output := Some []\<rparr>)
           \<and> c_output (New\<lparr>c_output := Some []\<rparr>) = Some []"
    by (simp add: New_def)
  show ?thesis
    using addJSFile_idempotent [where cfg = "ex_config 1 1" and jsURL = "''https://x.test/a.js''"
        and s = "New\<lparr>c_output := Some []\<rparr>" and ls = "[]", THEN conjunct2, THEN mp, OF h]
    by simp
qed

subsection \<open>Links\<close>

lemma isValidLink_iff:
  "isValidLink lib a b \<longleftrightarrow>
     (\<exists>pa pb. url_Parse lib a = Some pa \<and> url_Parse lib b = Some pb \<and> Host pa = Host pb)"
  by (auto simp: isValidLink_def split: option.splits)

lemma isValidLink_trans:
  "isValidLink lib a b \<Longrightarrow> isValidLink lib b c \<Longrightarrow> isValidLink lib a c"
  by (auto simp: isValidLink_iff)

lemma collect_links_set:
  "set (collect_links lib b hs)
     = {l. \<exists>h \<in> set hs. l = resolveURL lib h b \<and> isValidLink lib l b}"
  by (induction hs) (auto simp: Let_def)

lemma extractLinks_valid: "l \<in> set (extractLinks lib body b) \<Longrightarrow> isValidLink lib l b"
  by (auto simp: extractLinks_def collect_links_set split: option.splits)

lemma fetched_urls:
  "map task_url (tasks (fetched lib cfg rc i env body now s))
     = map task_url (tasks s)
       @ (if i < length (tasks s) \<and> task_phase (tasks s ! i) = Fetching
             \<and> Success (Retry env (Some rc)) \<and> \<not> Threads cfg < 0
          then extractLinks lib body (task_url (tasks s ! i)) else [])"
  by (simp add: fetched_def crawlURL_fetched_def Let_def comp_def)

lemma enter_urls: "map task_url (tasks (enter cfg i s)) = map task_url (tasks s)"
  by (simp add: enter_def crawlURL_entry_def)

lemma acquire_urls: "map task_url (tasks (acquire cfg i s)) = map task_url (tasks s)"
  by (simp add: acquire_def split: option.splits)

lemma join_urls: "map task_url (tasks (join i s)) = map task_url (tasks s)"
  by (simp add: join_def)

lemma release_urls: "map task_url (tasks (release i s)) = map task_url (tasks s)"
  by (simp add: release_def split: phase.splits)

lemma finish_urls: "map task_url (tasks (finish i s)) = map task_url (tasks s)"
  by (simp add: finish_def split: phase.splits)

lemma step_tasks_urls:
  "\<exists>new. map task_url (tasks (step lib cfg rc a s)) = map task_url (tasks s) @ new
      \<and> (\<forall>l \<in> set new. \<exists>i < length (tasks s). isValidLink lib l (task_url (tasks s ! i)))"
proof (cases a)
  case (Fetched i env body now)
  let ?new = "if i < length (tasks s) \<and> task_phase (tasks s ! i) = Fetching
                 \<and> Success (Retry env (Some rc)) \<and> \<not> Threads cfg < 0
              then extractLinks lib body (task_url (tasks s ! i)) else []"
  have "map task_url (tasks (step lib cfg rc a s))
          = map task_url (tasks s) @ (if panicked s then [] else ?new)"
    using Fetched by (simp add: fetched_urls)
  moreover have "\<forall>l \<in> set (if panicked s then [] else ?new).
                   \<exists>j < length (tasks s). isValidLink lib l (task_url (tasks s ! j))"
    using extractLinks_valid by (simp split: if_splits) blast
  ultimately show ?thesis by blast
qed (simp_all add: acquire_urls enter_urls join_urls release_urls finish_urls)

lemma step_fetch_log_cases:
  "fetch_log (step lib cfg rc a s) = fetch_log s
   \<or> (\<exists>i < length (tasks s). fetch_log (step lib cfg rc a s)
            = fetch_log s @ [(task_url (tasks s ! i), task_depth (tasks s ! i))])"
  using step_visited_fetch_log [of lib cfg rc a s] by metis

lemma step_fetch_log_urls:
  assumes "fst ` set (fetch_log s) \<subseteq> set (map task_url (tasks s))"
  shows "fst ` set (fetch_log (step lib cfg rc a s)) \<subseteq> set (map task_url (tasks s))"
  using step_fetch_log_cases [of lib cfg rc a s]
proof (elim disjE exE conjE)
  assume "fetch_log (step lib cfg rc a s) = fetch_log s"
  then show ?thesis using assms by simp
next
  fix i assume i: "i < length (tasks s)"
    and f: "fetch_log (step lib cfg rc a s)
            = fetch_log s @ [(task_url (tasks s ! i), task_depth (tasks s ! i))]"
  have "task_url (tasks s ! i) \<in> set (map task_url (tasks s))" using i by simp
  then show ?thesis using assms unfolding f by simp
qed

lemma step_host_inv:
  assumes "host_inv lib domain s"
  shows "host_inv lib domain (step lib cfg rc a s)"
proof -
  obtain new where new: "map task_url (tasks (step lib cfg rc a s)) = map task_url (tasks s) @ new"
      "\<forall>l \<in> set new. \<exists>i < length (tasks s). isValidLink lib l (task_url (tasks s ! i))"
    using step_tasks_urls [of lib cfg rc a s] by blast
  have old: "\<forall>u \<in> set (map task_url (tasks s)). u = domain \<or> isValidLink lib u domain"
    and oldf: "fst ` set (fetch_log s) \<subseteq> set (map task_url (tasks s))"
    using assms by (simp_all add: host_inv_def)
  have fresh: "l = domain \<or> isValidLink lib l domain" if "l \<in> set new" for l
  proof -
    have "\<exists>i < length (tasks s). isValidLink lib l (task_url (tasks s ! i))"
      using new(2) that by (rule bspec)
    then obtain i where i: "i < length (tasks s)" "isValidLink lib l (task_url (tasks s ! i))"
      by (elim exE conjE)
    have "task_url (tasks s ! i) \<in> set (map task_url (tasks s))" using i(1) by simp
    then have "task_url (tasks s ! i) = domain \<or> isValidLink lib (task_url (tasks s ! i)) domain"
      using old by blast
    then show ?thesis
    proof
      assume "task_url (tasks s ! i) = domain"
      then show ?thesis using i(2) by simp
    next
      assume "isValidLink lib (task_url (tasks s ! i)) domain"
      then show ?thesis using isValidLink_trans [OF i(2)] by simp
    qed
  qed
  have a: "\<forall>u \<in> set (map task_url (tasks (step lib cfg rc a s))).
                  u = domain \<or> isValidLink lib u domain"
  proof
    fix u assume "u \<in> set (map task_url (tasks (step lib cfg rc a s)))"
    then have "u \<in> set (map task_url (tasks s)) \<or> u \<in> set new" unfolding new(1) by simp
    then show "u = domain \<or> isValidLink lib u domain" using old fresh by blast
  qed
  have "fst ` set (fetch_log (step lib cfg rc a s)) \<subseteq> set (map task_url (tasks s))"
    by (rule step_fetch_log_urls [OF oldf])
  also have "\<dots> \<subseteq> set (map task_url (tasks (step lib cfg rc a s)))"
    unfolding new(1) by simp
  finally have b: "fst ` set (fetch_log (step lib cfg rc a s))
                     \<subseteq> set (map task_url (tasks (step lib cfg rc a s)))" .
  show ?thesis unfolding host_inv_def by (rule conjI [OF a b])
qed

lemma run_host_inv: "host_inv lib domain s \<Longrightarrow> host_inv lib domain (run lib cfg rc sched s)"
  by (induction sched arbitrary: s) (simp_all add: step_host_inv)

lemma CrawlDomain_host_inv:
  "host_inv lib domain (snd (CrawlDomain lib cfg rc ce domain sched New))
   \<or> tasks (snd (CrawlDomain lib cfg rc ce domain sched New)) = []
     \<and> fetch_log (snd (CrawlDomain lib cfg rc ce domain sched New)) = []"
proof -
  define c1 where "c1 = (if Verbose cfg
               then New\<lparr>console := console New @ [''Starting crawl of domain: '' @ domain]\<rparr>
               else New)"
  have c1: "tasks c1 = []" "fetch_log c1 = []" by (simp_all add: c1_def New_def)
  obtain c2 e where se: "setupOutput cfg ce c1 = (c2, e)" by (cases "setupOutput cfg ce c1")
  have c2: "tasks c2 = []" "fetch_log c2 = []"
    using setupOutput_fields(2,3) [of cfg ce c1] c1 se by simp_all
  have "host_inv lib domain (start_crawl domain c2)"
    using c2 by (simp add: host_inv_def start_crawl_def)
  then have "host_inv lib domain (run lib cfg rc sched (start_crawl domain c2))"
    by (rule run_host_inv)
  then show ?thesis
    unfolding CrawlDomain_def Let_def c1_def [symmetric] se
    using c2 by (cases e) simp_all
qed

text \<open>
  Claim C7 as it is written fails: on the page \<^verbatim>\<open>https://x.test/\<close> the link
  \<^verbatim>\<open>http://x.test/p2\<close>, of another scheme, is accepted by \<^verbatim>\<open>isValidLink\<close> and is among
  the links \<^verbatim>\<open>extractLinks\<close> returns.
\<close>

theorem isValidLink_ignores_scheme_counterexample:
  "isValidLink ex_lib ''http://x.test/p2'' ''https://x.test/''
   \<and> url_Parse ex_lib ''http://x.test/p2'' = Some (ex_url ''http'' ''x.test'' ''/p2'' [])
   \<and> url_Parse ex_lib ''https://x.test/'' = Some (ex_url ''https'' ''x.test'' ''/'' [])
   \<and> ''http://x.test/p2'' \<in> set (extractLinks ex_lib
        ''<a href=http://x.test/p2>p</a><a href=#top>t</a><a href=mailto:test@x.test>m</a>''
        ''https://x.test/'')"
  by code_simp

text \<open>
  Claim C7, amended. A link is crawlable only if it and the URL of the page it was
  found on both parse and have the same host. Every link \<^verbatim>\<open>extractLinks\<close> returns has
  passed this test. A reference whose URL has no host, as a \<^verbatim>\<open>mailto:\<close> or a
  \<^verbatim>\<open>javascript:\<close> reference, is not crawlable from a page that has one. Every URL
  fetched in a session of \<^verbatim>\<open>CrawlDomain\<close> is the first URL or has the host of the first
  URL, so a URL of another host is never fetched.
\<close>

theorem links_same_host:
  "(isValidLink lib link baseURL \<longrightarrow>
      (\<exists>pl pb. url_Parse lib link = Some pl \<and> url_Parse lib baseURL = Some pb
          \<and> Host pl = Host pb))
   \<and> (\<forall>l \<in> set (extractLinks lib body baseURL). isValidLink lib l baseURL)
   \<and> (url_Parse lib link = Some pl \<and> Host pl = [] \<and> url_Parse lib baseURL = Some pb
        \<and> Host pb \<noteq> [] \<longrightarrow> \<not> isValidLink lib link baseURL)
   \<and> (\<forall>p \<in> set (fetch_log (snd (CrawlDomain lib cfg rc ce domain sched New))).
        fst p = domain \<or> isValidLink lib (fst p) domain)
   \<and> (url_Parse lib u = Some pu \<and> url_Parse lib domain = Some pd \<and> Host pu \<noteq> Host pd \<longrightarrow>
        u \<notin> fst ` set (fetch_log (snd (CrawlDomain lib cfg rc ce domain sched New))))"
proof -
  let ?s = "snd (CrawlDomain lib cfg rc ce domain sched New)"
  have a: "isValidLink lib link baseURL \<longrightarrow>
      (\<exists>pl pb. url_Parse lib link = Some pl \<and> url_Parse lib baseURL = Some pb
          \<and> Host pl = Host pb)"
    by (simp add: isValidLink_iff)
  have b: "\<forall>l \<in> set (extractLinks lib body baseURL). isValidLink lib l baseURL"
    using extractLinks_valid by blast
  have c: "url_Parse lib link = Some pl \<and> Host pl = [] \<and> url_Parse lib baseURL = Some pb
        \<and> Host pb \<noteq> [] \<longrightarrow> \<not> isValidLink lib link baseURL"
    by (auto simp: isValidLink_iff)
  have d: "\<forall>p \<in> set (fetch_log ?s). fst p = domain \<or> isValidLink lib (fst p) domain"
  proof
    fix p assume p: "p \<in> set (fetch_log ?s)"
    from CrawlDomain_host_inv [of lib domain cfg rc ce sched]
    show "fst p = domain \<or> isValidLink lib (fst p) domain"
    proof
      assume h: "host_inv lib domain ?s"
      have "fst p \<in> fst ` set (fetch_log ?s)" using p by (rule imageI)
      then have "fst p \<in> set (map task_url (tasks ?s))" using h unfolding host_inv_def by auto
      then show ?thesis using h unfolding host_inv_def by auto
    next
      assume "tasks ?s = [] \<and> fetch_log ?s = []"
      then show ?thesis using p by simp
    qed
  qed
  have e: "url_Parse lib u = Some pu \<and> url_Parse lib domain = Some pd \<and> Host pu \<noteq> Host pd \<longrightarrow>
        u \<notin> fst ` set (fetch_log ?s)"
  proof (intro impI notI, elim conjE)
    assume pu: "url_Parse lib u = Some pu" and pd: "url_Parse lib domain = Some pd"
      and ne: "Host pu \<noteq> Host pd" and "u \<in> fst ` set (fetch_log ?s)"
    then obtain p where p: "p \<in> set (fetch_log ?s)" "u = fst p" by (elim imageE)
    from d p have "u = domain \<or> isValidLink lib u domain" by simp
    then show False using pu pd ne by (auto simp: isValidLink_iff)
  qed
  show ?thesis by (intro conjI a b c d e)
qed

theorem links_same_host_witness:
  "isValidLink ex_lib ''https://x.test/a'' ''https://x.test/''
   \<and> (\<exists>pl pb. url_Parse ex_lib ''https://x.test/a'' = Some pl
          \<and> url_Parse ex_lib ''https://x.test/'' = Some pb \<and> Host pl = Host pb)
   \<and> \<not> isValidLink ex_lib ''mailto:test@x.test'' ''https://x.test/''
   \<and> \<not> isValidLink ex_lib ''javascript:void(0)'' ''https://x.test/''
   \<and> ''https://other.test/p'' \<notin> fst ` set (fetch_log (ex_crawl 1 5 ex_scenario_schedule))
   \<and> map fst (fetch_log (ex_crawl 1 5 ex_scenario_schedule))
       = [''https://x.test/'', ''https://x.test/a'']
   \<and> jsFiles (ex_crawl 1 5 ex_scenario_schedule) = {''https://x.test/a.js''}"
proof -
  have pa: "url_Parse ex_lib ''https://x.test/a'' = Some (ex_url ''https'' ''x.test'' ''/a'' [])"
    and pr: "url_Parse ex_lib ''https://x.test/'' = Some (ex_url ''https'' ''x.test'' ''/'' [])"
    and pm: "url_Parse ex_lib ''mailto:test@x.test'' = Some (ex_opaque_url ''mailto'' ''test@x.test'')"
    and pj: "url_Parse ex_lib ''javascript:void(0)'' = Some (ex_opaque_url ''javascript'' ''void(0)'')"
    and po: "url_Parse ex_lib ''https://other.test/p''
               = Some (ex_url ''https'' ''other.test'' ''/p'' [])"
    by code_simp+
  have hosts: "Host (ex_url ''https'' ''x.test'' ''/a'' []) = Host (ex_url ''https'' ''x.test'' ''/'' [])"
      "Host (ex_opaque_url ''mailto'' ''test@x.test'') = []"
      "Host (ex_opaque_url ''javascript'' ''void(0)'') = []"
      "Host (ex_url ''https'' ''x.test'' ''/'' []) \<noteq> []"
      "Host (ex_url ''https'' ''other.test'' ''/p'' []) \<noteq> Host (ex_url ''https'' ''x.test'' ''/'' [])"
    by (simp_all add: ex_url_def ex_opaque_url_def)
  have a: "isValidLink ex_lib ''https://x.test/a'' ''https://x.test/''"
    by code_simp
  have a': "\<exists>pl pb. url_Parse ex_lib ''https://x.test/a'' = Some pl
          \<and> url_Parse ex_lib ''https://x.test/'' = Some pb \<and> Host pl = Host pb"
    by (rule links_same_host [where lib = ex_lib and link = "''https://x.test/a''"
          and baseURL = "''https://x.test/''", THEN conjunct1, THEN mp, OF a])
  have b: "\<not> isValidLink ex_lib ''mailto:test@x.test'' ''https://x.test/''"
    by (rule links_same_host [where lib = ex_lib and link = "''mailto:test@x.test''"
          and baseURL = "''https://x.test/''", THEN conjunct2, THEN conjunct2, THEN conjunct1,
          THEN mp, OF conjI [OF pm conjI [OF hosts(2) conjI [OF pr hosts(4)]]]])
  have c: "\<not> isValidLink ex_lib ''javascript:void(0)'' ''https://x.test/''"
    by (rule links_same_host [where lib = ex_lib and link = "''javascript:void(0)''"
          and baseURL = "''https://x.test/''", THEN conjunct2, THEN conjunct2, THEN conjunct1,
          THEN mp, OF conjI [OF pj conjI [OF hosts(3) conjI [OF pr hosts(4)]]]])
  have d: "''https://other.test/p'' \<notin> fst ` set (fetch_log (ex_crawl 1 5 ex_scenario_schedule))"
    unfolding ex_crawl_def
    by (rule links_same_host [where lib = ex_lib and u = "''https://other.test/p''"
          and domain = "''https://x.test/''",
          THEN conjunct2, THEN conjunct2, THEN conjunct2, THEN conjunct2,
          THEN mp, OF conjI [OF po conjI [OF pr hosts(5)]]])
  have e: "map fst (fetch_log (ex_crawl 1 5 ex_scenario_schedule))
       = [''https://x.test/'', ''https://x.test/a'']"
    by code_simp
  have f: "jsFiles (ex_crawl 1 5 ex_scenario_schedule) = {''https://x.test/a.js''}"
    by code_simp
  show ?thesis by (intro conjI a a' b c d e f)
qed

subsection \<open>What the entry points return\<close>






























end
